theory Spec2Isabelle
  imports Main "HOL-Library.Sublist"
begin

section \<open>Exceptions\<close>

text \<open>
  Every exception the modelled code can raise is a value of one datatype; a function that
  may raise returns \<open>exn option\<close> (\<open>None\<close>: it returned normally) together with the
  state as the raise left it, since Python keeps every mutation made before a raise.

  Modelled from the spec: \<open>pipeline/exceptions.py\<close> is imported by the engine but is not
  among the source files. \<open>StopPipelineException\<close> is the spec's early-stop signal and
  \<open>StopPayloadException\<close> its skip-remaining signal; both carry the message the code
  passes to the constructor and reads back as \<open>e.msg\<close>, and both are ordinary
  exceptions (caught by \<open>except Exception\<close>). The other constructors are the exceptions
  of \<open>intercom/api.py\<close>, of Python itself and of the database driver.
\<close>

datatype exn =
    StopPipelineException string
  | StopPayloadException string
  | APIErrorException
  | TypeError string
  | ValueError string
  | KeyError string
  | AttributeError string
  | DatabaseError string

section \<open>The pipeline engine (pipeline/pipeline.py)\<close>

text \<open>
  The engine writes to a logger at every stage. The log is kept in the model: it is the
  only record the source itself makes of which phase ran, and of the length of the
  payload queue at the moment a payload is taken up.
\<close>

datatype phase = PreExecution | PostExecution | ErrorHandling

datatype log_event =
    StepsToExecute phase nat
  | StartingStep phase string
  | ProcessedAllSteps phase
  | NoPayloads
  | PayloadsToProcess nat
  | ProcessedAllPayloads
  | StartingPipelineStep string
  | FinishedPipelineStep string
  | StoppingPayloadEarly string
  | ProcessedPayload
  | StoppingPipelineEarly string
  | UnexpectedError exn

text \<open>
  A pre-execution, post-execution or error-handling step receives the Pipeline object: it
  may replace the payload list and change everything else the pipeline owns (the
  environment \<open>'s\<close>: connection, cursor, and the outside world they reach). A pipeline
  step receives one payload, which it mutates in place, and the environment the payload
  refers to. The attribute \<open>payloads\<close> is only annotated in the class body, so it is
  absent (\<open>None\<close>) until a step assigns it.
\<close>

type_synonym ('p, 's) run_step =
  "'p list option \<Rightarrow> 's \<Rightarrow> exn option \<times> 'p list option \<times> 's"

type_synonym ('p, 's) payload_step =
  "'p \<Rightarrow> 's \<Rightarrow> exn option \<times> 'p \<times> 's"

record ('p, 's) pipeline =
  payloads :: "'p list option"
  pre_execution_steps :: "(string \<times> ('p, 's) run_step) list"
  pipeline_steps :: "(string \<times> ('p, 's) payload_step) list"
  post_execution_steps :: "(string \<times> ('p, 's) run_step) list"
  error_handling_steps :: "(string \<times> ('p, 's) run_step) list"
  env :: 's
  logged :: "log_event list"

definition log_info :: "log_event \<Rightarrow> ('p, 's) pipeline \<Rightarrow> ('p, 's) pipeline" where
  "log_info ev p = p\<lparr>logged := logged p @ [ev]\<rparr>"

text \<open>
  The three loops \<open>run_pre_execution_steps\<close>, \<open>run_post_execution_steps\<close> and
  \<open>run_error_handling\<close> have the same body and differ in the list they walk and in the
  words they log; \<open>run_step_list\<close> is that body. A step that raises ends the loop with
  its exception; the closing log line is not written then.
\<close>

fun run_step_list ::
  "phase \<Rightarrow> (string \<times> ('p, 's) run_step) list \<Rightarrow> ('p, 's) pipeline
    \<Rightarrow> exn option \<times> ('p, 's) pipeline" where
  "run_step_list ph [] p = (None, p)"
| "run_step_list ph ((name, step) # rest) p =
    (let p1 = log_info (StartingStep ph name) p in
     case step (payloads p1) (env p1) of
       (Some e, ps, s) \<Rightarrow> (Some e, p1\<lparr>payloads := ps, env := s\<rparr>)
     | (None, ps, s) \<Rightarrow> run_step_list ph rest (p1\<lparr>payloads := ps, env := s\<rparr>))"

definition run_phase ::
  "phase \<Rightarrow> (string \<times> ('p, 's) run_step) list \<Rightarrow> ('p, 's) pipeline
    \<Rightarrow> exn option \<times> ('p, 's) pipeline" where
  "run_phase ph steps p =
    (case run_step_list ph steps (log_info (StepsToExecute ph (length steps)) p) of
       (Some e, p') \<Rightarrow> (Some e, p')
     | (None, p') \<Rightarrow> (None, log_info (ProcessedAllSteps ph) p'))"

definition run_pre_execution_steps ::
  "('p, 's) pipeline \<Rightarrow> exn option \<times> ('p, 's) pipeline" where
  "run_pre_execution_steps p = run_phase PreExecution (pre_execution_steps p) p"

definition run_post_execution_steps ::
  "('p, 's) pipeline \<Rightarrow> exn option \<times> ('p, 's) pipeline" where
  "run_post_execution_steps p = run_phase PostExecution (post_execution_steps p) p"

definition run_error_handling ::
  "('p, 's) pipeline \<Rightarrow> exn option \<times> ('p, 's) pipeline" where
  "run_error_handling p = run_phase ErrorHandling (error_handling_steps p) p"

text \<open>
  \<open>run_payload\<close>: every pipeline step in order on one payload. A
  \<open>StopPayloadException\<close> is caught here and ends the loop (\<open>break\<close>); any other
  exception leaves the function, so the last log line is skipped.
\<close>

fun run_payload_steps ::
  "(string \<times> ('p, 's) payload_step) list \<Rightarrow> 'p \<Rightarrow> ('p, 's) pipeline
    \<Rightarrow> exn option \<times> 'p \<times> ('p, 's) pipeline" where
  "run_payload_steps [] x p = (None, x, p)"
| "run_payload_steps ((name, step) # rest) x p =
    (let p1 = log_info (StartingPipelineStep name) p in
     case step x (env p1) of
       (None, x', s) \<Rightarrow>
         run_payload_steps rest x' (log_info (FinishedPipelineStep name) (p1\<lparr>env := s\<rparr>))
     | (Some (StopPayloadException msg), x', s) \<Rightarrow>
         (None, x', log_info (StoppingPayloadEarly msg) (p1\<lparr>env := s\<rparr>))
     | (Some e, x', s) \<Rightarrow> (Some e, x', p1\<lparr>env := s\<rparr>))"

definition run_payload ::
  "('p, 's) pipeline \<Rightarrow> 'p \<Rightarrow> exn option \<times> 'p \<times> ('p, 's) pipeline" where
  "run_payload p x =
    (case run_payload_steps (pipeline_steps p) x p of
       (Some e, x', p') \<Rightarrow> (Some e, x', p')
     | (None, x', p') \<Rightarrow> (None, x', log_info ProcessedPayload p'))"

text \<open>
  \<open>run_all_payloads\<close>: the \<open>while len(self.payloads) > 0\<close> loop. Each round logs the
  queue length, runs the head payload (a Python object, so the steps' mutations are
  visible in the queue's head) and deletes the head. When a step raises, the queue is
  left with the half-processed payload at its head. Pipeline steps see one payload and
  the environment only, so the tail of the queue is what the loop itself leaves there.
\<close>

fun run_payload_queue ::
  "'p list \<Rightarrow> ('p, 's) pipeline \<Rightarrow> exn option \<times> ('p, 's) pipeline" where
  "run_payload_queue [] p = (None, p\<lparr>payloads := Some []\<rparr>)"
| "run_payload_queue (x # xs) p =
    (case run_payload
        (log_info (PayloadsToProcess (length (x # xs))) (p\<lparr>payloads := Some (x # xs)\<rparr>)) x of
       (Some e, x', p') \<Rightarrow> (Some e, p'\<lparr>payloads := Some (x' # xs)\<rparr>)
     | (None, x', p') \<Rightarrow> run_payload_queue xs (p'\<lparr>payloads := Some xs\<rparr>))"

definition run_all_payloads ::
  "('p, 's) pipeline \<Rightarrow> exn option \<times> ('p, 's) pipeline" where
  "run_all_payloads p =
    (case payloads p of
       None \<Rightarrow> (Some (AttributeError ''payloads''), p)
     | Some [] \<Rightarrow> (None, log_info NoPayloads p)
     | Some (x # xs) \<Rightarrow>
         (case run_payload_queue (x # xs) p of
            (Some e, p') \<Rightarrow> (Some e, p')
          | (None, p') \<Rightarrow> (None, log_info ProcessedAllPayloads p')))"

text \<open>
  \<open>execute\<close>: the inner \<open>try\<close> covers pre-execution and the payloads
  (\<open>pre_execution_and_payloads\<close> is its body) and catches only
  \<open>StopPipelineException\<close>; post-execution follows it; the outer \<open>try\<close> catches every
  exception of all three. Its handler, \<open>handle_unexpected\<close>, logs the exception, runs the
  error handling and raises the caught exception again. An exception raised inside the
  error handling is not caught by anything: it leaves \<open>execute\<close> in place of the
  original one.
\<close>

definition pre_execution_and_payloads ::
  "('p, 's) pipeline \<Rightarrow> exn option \<times> ('p, 's) pipeline" where
  "pre_execution_and_payloads p =
    (case run_pre_execution_steps p of
       (Some e, p') \<Rightarrow> (Some e, p')
     | (None, p') \<Rightarrow> run_all_payloads p')"

definition handle_unexpected ::
  "exn \<Rightarrow> ('p, 's) pipeline \<Rightarrow> exn option \<times> ('p, 's) pipeline" where
  "handle_unexpected e p =
    (case run_error_handling (log_info (UnexpectedError e) p) of
       (Some e', p') \<Rightarrow> (Some e', p')
     | (None, p') \<Rightarrow> (Some e, p'))"

definition execute :: "('p, 's) pipeline \<Rightarrow> exn option \<times> ('p, 's) pipeline" where
  "execute p =
    (let (r1, p1) = pre_execution_and_payloads p;
         (r2, p2) =
           (case r1 of
              None \<Rightarrow> run_post_execution_steps p1
            | Some (StopPipelineException msg) \<Rightarrow>
                run_post_execution_steps (log_info (StoppingPipelineEarly msg) p1)
            | Some e \<Rightarrow> (Some e, p1))
     in case r2 of
          None \<Rightarrow> (None, p2)
        | Some e \<Rightarrow> handle_unexpected e p2)"

text \<open>Reading the log: how often a phase was entered, and the queue lengths it records.\<close>

fun starts_phase :: "phase \<Rightarrow> log_event \<Rightarrow> bool" where
  "starts_phase ph (StepsToExecute ph' n) = (ph = ph')"
| "starts_phase ph _ = False"

definition phase_runs :: "phase \<Rightarrow> log_event list \<Rightarrow> nat" where
  "phase_runs ph l = length (filter (starts_phase ph) l)"

fun queue_lengths :: "log_event list \<Rightarrow> nat list" where
  "queue_lengths [] = []"
| "queue_lengths (PayloadsToProcess n # l) = n # queue_lengths l"
| "queue_lengths (_ # l) = queue_lengths l"

fun is_stop_pipeline :: "exn \<Rightarrow> bool" where
  "is_stop_pipeline (StopPipelineException msg) = True"
| "is_stop_pipeline _ = False"

section \<open>The remote API (intercom/api.py)\<close>

text \<open>
  JSON values, as \<open>response.json()\<close> returns them and as the driver writes them to the
  database. The search endpoint's answers are kept in the shape the code reads
  (\<open>pages.total_pages\<close>, and for each conversation \<open>id\<close>, \<open>updated_at\<close>,
  \<open>source.type\<close>). Any other body is a \<open>Document\<close>: reading a key of a search result
  from it raises \<open>KeyError\<close> when it is an object (which then lacks the key) and
  \<open>TypeError\<close> when it is not an object at all.
\<close>

datatype json =
    JNull
  | JBool bool
  | JInt int
  | JStr string
  | JList "json list"
  | JObj "(string \<times> json) list"

record conversation =
  conv_id :: string
  updated_at :: int
  source_type :: string

datatype body =
    SearchResult int "conversation list"
  | Document json

record response =
  status :: "string option"
  body :: body

fun key_error :: "json \<Rightarrow> string \<Rightarrow> exn" where
  "key_error (JObj kvs) k = KeyError k"
| "key_error _ k = TypeError ''not subscriptable by a string''"

text \<open>
  The search query is the tree the code builds: a leaf compares a field with a value, an
  inner node combines queries with \<open>AND\<close> or \<open>OR\<close>.
\<close>

datatype query =
    Field string string int
  | Compound string "query list"

record search_payload =
  query :: query
  pagination :: "int option"

datatype request =
    Post string string search_payload
  | Get string string

datatype call = HttpRequest request | Sleep int

text \<open>
  The remote side: the bearer token of the environment (absent when the variable is not
  set), the answer the service gives to the \<open>n\<close>-th request of the run, the number of
  requests served, and the calls made so far, oldest first.
\<close>

record remote =
  api_token :: "string option"
  answers :: "nat \<Rightarrow> request \<Rightarrow> response"
  served :: nat
  calls :: "call list"

definition send :: "request \<Rightarrow> remote \<Rightarrow> response \<times> remote" where
  "send req r =
    (answers r (served r) req, r\<lparr>served := Suc (served r), calls := calls r @ [HttpRequest req]\<rparr>)"

definition sleep :: "int \<Rightarrow> remote \<Rightarrow> exn option \<times> remote" where
  \<comment> \<open>\<open>time.sleep\<close> refuses a negative length.\<close>
  "sleep backoff r =
    (if backoff < 0 then (Some (ValueError ''sleep length must be non-negative''), r)
     else (None, r\<lparr>calls := calls r @ [Sleep backoff]\<rparr>))"

definition search_url :: string where
  "search_url = ''https://api.intercom.io/conversations/search''"

text \<open>
  The retry loop \<open>while failed_attempts <= retries\<close> as it stands in
  \<open>get_conversation_max_updated_timestamp\<close>, in \<open>get_conversation_details\<close> and as the
  first loop of \<open>get_conversation_ids_last_updated_between_timestamps\<close>: send the same
  request until an answer carries the header \<open>Status: 200 OK\<close>; after every other answer
  count the failure and sleep; when the count passes \<open>retries\<close> the loop's \<open>else\<close>
  raises \<open>APIErrorException\<close>. It returns the answer and the count of failures, which the
  paginated search carries into its second loop.
\<close>

function request_until_ok ::
  "request \<Rightarrow> int \<Rightarrow> int \<Rightarrow> int \<Rightarrow> remote \<Rightarrow> (exn + response \<times> int) \<times> remote" where
  "request_until_ok req retries backoff failed_attempts r =
    (if failed_attempts \<le> retries then
       (case send req r of (resp, r1) \<Rightarrow>
          (case status resp of
             None \<Rightarrow> (Inl (KeyError ''Status''), r1)
           | Some st \<Rightarrow>
               if st = ''200 OK'' then (Inr (resp, failed_attempts), r1)
               else
                 (case sleep backoff r1 of
                    (Some e, r2) \<Rightarrow> (Inl e, r2)
                  | (None, r2) \<Rightarrow> request_until_ok req retries backoff (failed_attempts + 1) r2)))
     else (Inl APIErrorException, r))"
  by pat_completeness auto
termination
  by (relation "measure (\<lambda>(req, retries, backoff, failed_attempts, r).
        nat (retries + 1 - failed_attempts))") auto

declare request_until_ok.simps [simp del]

definition max_updated_payload :: "int \<Rightarrow> search_payload" where
  "max_updated_payload start_timestamp =
    \<lparr>query = Field ''updated_at'' ''>'' start_timestamp, pagination = None\<rparr>"

definition get_conversation_max_updated_timestamp ::
  "int \<Rightarrow> int \<Rightarrow> int \<Rightarrow> remote \<Rightarrow> (exn + int option) \<times> remote" where
  "get_conversation_max_updated_timestamp start_timestamp retries backoff r =
    (case api_token r of
       None \<Rightarrow> (Inl (KeyError ''INTERCOM_API_TOKEN''), r)
     | Some token \<Rightarrow>
         (case request_until_ok (Post search_url token (max_updated_payload start_timestamp))
                 retries backoff 0 r of
            (Inl e, r1) \<Rightarrow> (Inl e, r1)
          | (Inr (resp, failed_attempts), r1) \<Rightarrow>
              (case body resp of
                 Document j \<Rightarrow> (Inl (key_error j ''conversations''), r1)
               | SearchResult total_pages conversations \<Rightarrow>
                   (let updated_at_values =
                          map updated_at
                            (filter (\<lambda>conv. source_type conv = ''conversation'') conversations)
                    in (Inr (if length updated_at_values > 0
                             then Some (Max (set updated_at_values)) else None), r1)))))"

definition get_payload :: "int \<Rightarrow> int \<Rightarrow> int \<Rightarrow> search_payload" where
  "get_payload start_timestamp end_timestamp page =
    \<lparr>query = Compound ''AND''
       [Field ''updated_at'' ''>'' start_timestamp,
        Compound ''OR''
          [Field ''updated_at'' ''='' end_timestamp,
           Field ''updated_at'' ''<'' end_timestamp]],
     pagination = Some page\<rparr>"

text \<open>
  The second loop of the paginated search: it starts at the last page and stops after
  page 1 (or after the first page fetched, when that page's number is not above 1). A
  failed request is repeated for the same page; the failures of both loops share one
  count.
\<close>

function fetch_pages ::
  "string \<Rightarrow> int \<Rightarrow> int \<Rightarrow> int \<Rightarrow> int \<Rightarrow> int \<Rightarrow> int \<Rightarrow> string list \<Rightarrow> remote
    \<Rightarrow> (exn + string list) \<times> remote" where
  "fetch_pages token start_timestamp end_timestamp retries backoff failed_attempts current_page
      conversation_ids r =
    (if failed_attempts \<le> retries then
       (case send (Post search_url token (get_payload start_timestamp end_timestamp current_page)) r of
          (resp, r1) \<Rightarrow>
          (case status resp of
             None \<Rightarrow> (Inl (KeyError ''Status''), r1)
           | Some st \<Rightarrow>
               if st = ''200 OK'' then
                 (case body resp of
                    Document j \<Rightarrow> (Inl (key_error j ''conversations''), r1)
                  | SearchResult total_pages conversations \<Rightarrow>
                      (let new_conversation_ids =
                             map conv_id
                               (filter (\<lambda>conv. source_type conv = ''conversation'') conversations)
                       in if current_page > 1 then
                            fetch_pages token start_timestamp end_timestamp retries backoff
                              failed_attempts (current_page - 1)
                              (conversation_ids @ new_conversation_ids) r1
                          else (Inr (conversation_ids @ new_conversation_ids), r1)))
               else
                 (case sleep backoff r1 of
                    (Some e, r2) \<Rightarrow> (Inl e, r2)
                  | (None, r2) \<Rightarrow>
                      fetch_pages token start_timestamp end_timestamp retries backoff
                        (failed_attempts + 1) current_page conversation_ids r2)))
     else (Inl APIErrorException, r))"
  by pat_completeness auto
termination
  by (relation "measure (\<lambda>(token, start_timestamp, end_timestamp, retries, backoff,
        failed_attempts, current_page, conversation_ids, r).
        nat (retries + 1 - failed_attempts) + nat current_page)") auto

declare fetch_pages.simps [simp del]

definition get_conversation_ids_last_updated_between_timestamps ::
  "int \<Rightarrow> int \<Rightarrow> int \<Rightarrow> int \<Rightarrow> remote \<Rightarrow> (exn + string list) \<times> remote" where
  "get_conversation_ids_last_updated_between_timestamps start_timestamp end_timestamp
      retries backoff r =
    (case api_token r of
       None \<Rightarrow> (Inl (KeyError ''INTERCOM_API_TOKEN''), r)
     | Some token \<Rightarrow>
         (case request_until_ok
                 (Post search_url token (get_payload start_timestamp end_timestamp 1))
                 retries backoff 0 r of
            (Inl e, r1) \<Rightarrow> (Inl e, r1)
          | (Inr (resp, failed_attempts), r1) \<Rightarrow>
              (case body resp of
                 Document j \<Rightarrow> (Inl (key_error j ''pages''), r1)
               | SearchResult total_pages conversations \<Rightarrow>
                   fetch_pages token start_timestamp end_timestamp retries backoff
                     failed_attempts total_pages [] r1)))"

definition get_conversation_details ::
  "string \<Rightarrow> int \<Rightarrow> int \<Rightarrow> remote \<Rightarrow> (exn + body) \<times> remote" where
  "get_conversation_details conversation_id retries backoff r =
    (case api_token r of
       None \<Rightarrow> (Inl (KeyError ''INTERCOM_API_TOKEN''), r)
     | Some token \<Rightarrow>
         (case request_until_ok
                 (Get (''https://api.intercom.io/conversations/'' @ conversation_id) token)
                 retries backoff 0 r of
            (Inl e, r1) \<Rightarrow> (Inl e, r1)
          | (Inr (resp, failed_attempts), r1) \<Rightarrow> (Inr (body resp), r1)))"

text \<open>
  What a query selects, as the search API reads it: a leaf on \<open>updated_at\<close> compares the
  conversation's change time with the value, \<open>AND\<close> asks for all parts, \<open>OR\<close> for one.
\<close>

fun selects :: "query \<Rightarrow> conversation \<Rightarrow> bool" where
  "selects (Field f ope v) c =
    (f = ''updated_at'' \<and>
     (if ope = ''>'' then updated_at c > v
      else if ope = ''<'' then updated_at c < v
      else if ope = ''='' then updated_at c = v
      else False))"
| "selects (Compound ope qs) c =
    (if ope = ''AND'' then list_all (\<lambda>q. selects q c) qs
     else if ope = ''OR'' then list_ex (\<lambda>q. selects q c) qs
     else False)"



text \<open>
  The conversations of an answer that the code counts: those whose source type is
  \<open>conversation\<close>. \<open>page_request\<close> is the request the paginated search sends for a page;
  \<open>answers_page\<close> holds of an answer that is a successful search result.
\<close>

definition counted :: "response \<Rightarrow> conversation list" where
  "counted resp =
    (case body resp of
       SearchResult total_pages conversations \<Rightarrow>
         filter (\<lambda>conv. source_type conv = ''conversation'') conversations
     | Document j \<Rightarrow> [])"

definition page_request :: "string \<Rightarrow> int \<Rightarrow> int \<Rightarrow> int \<Rightarrow> request" where
  "page_request token start_timestamp end_timestamp page =
     Post search_url token (get_payload start_timestamp end_timestamp page)"

definition answers_page :: "response \<Rightarrow> bool" where
  "answers_page resp =
     (status resp = Some ''200 OK'' \<and> (case body resp of SearchResult tp cs \<Rightarrow> True | Document j \<Rightarrow> False))"

section \<open>The database (database/database_operations.py)\<close>

text \<open>
  The code talks to PostgreSQL through a cursor. The store is modelled as far as the
  statements of the code reach: tables of rows, the two catalogue views the code reads,
  the statements issued, and the last committed state. A row maps a column name to a
  value (\<open>JNull\<close> for SQL's NULL, also for a column the row was not given). A table
  knows its columns, the columns declared NOT NULL and the columns of the primary key it
  enforces (\<open>[]\<close>: none). The schema \<open>pg_temp\<close> holds the session's temporary tables.
\<close>

type_synonym row = "string \<Rightarrow> json"

record table =
  tcols :: "string list"
  not_null :: "string list"
  pkey :: "string list"
  trows :: "row list"

record table_constraint =
  constraint_name :: string
  constraint_type :: string
  table_schema :: string
  table_name :: string

record key_column =
  kc_table_schema :: string
  kc_constraint_name :: string
  kc_column_name :: string
  kc_ordinal_position :: nat

datatype statement =
    Select_max_updated_at string
  | Select_primary_key string string
  | Select_key_columns string string
  | Create_temporary_table_like string string string
  | Copy_from_stdin "string option" string "string list" nat
  | Merge_into string string string "string list" "string list" "string list"
  | Truncate_table string
  | Delete_where string string string json
  | Commit
  | Rollback

record database =
  tables :: "string \<times> string \<Rightarrow> table option"
  durable :: "string \<times> string \<Rightarrow> table option"
  table_constraints :: "table_constraint list"
  key_column_usage :: "key_column list"
  statements :: "statement list"
  connect_raises :: "exn option"

definition issue :: "statement \<Rightarrow> database \<Rightarrow> database" where
  "issue stmt db = db\<lparr>statements := statements db @ [stmt]\<rparr>"

text \<open>
  A statement that writes: it changes rows or creates a table. The \<open>select\<close>
  statements and the end of the transaction do not.
\<close>

fun writes :: "statement \<Rightarrow> bool" where
  "writes (Create_temporary_table_like tmp s t) = True"
| "writes (Copy_from_stdin s t cols n) = True"
| "writes (Merge_into s t tmp pk non_pk cols) = True"
| "writes (Truncate_table t) = True"
| "writes (Delete_where s t c v) = True"
| "writes _ = False"

text \<open>
  An unqualified table name is looked up among the temporary tables of the session, which
  is where the only unqualified name of the code, the staging table, lives.
\<close>

fun resolve_name :: "string option \<Rightarrow> string \<Rightarrow> string \<times> string" where
  "resolve_name None t = (''pg_temp'', t)"
| "resolve_name (Some s) t = (s, t)"

definition key_of :: "string list \<Rightarrow> row \<Rightarrow> json list" where
  "key_of cols r = map r cols"

text \<open>
  A table violates its constraints when a row is NULL in a NOT NULL or primary-key
  column, or two rows agree on the primary key. A statement that would leave a table
  in violation fails, and changes nothing.
\<close>

definition violates :: "table \<Rightarrow> bool" where
  "violates t =
    (list_ex (\<lambda>r. list_ex (\<lambda>c. r c = JNull) (not_null t @ pkey t)) (trows t)
     \<or> (pkey t \<noteq> [] \<and> \<not> distinct (map (key_of (pkey t)) (trows t))))"

definition row_of :: "string list \<Rightarrow> json list \<Rightarrow> row" where
  "row_of cols vals = (\<lambda>c. case map_of (zip cols vals) c of Some v \<Rightarrow> v | None \<Rightarrow> JNull)"

text \<open>A pandas DataFrame: its column labels and its records, each aligned with the labels.\<close>

record dataframe =
  columns :: "string list"
  records :: "json list list"

text \<open>
  The records are written from \<open>df.convert_dtypes()\<close>. A column that holds \<open>None\<close> in
  one record and, in the others, only strings, only integers or only booleans (at least
  one) is converted to a nullable type, where the missing value is \<open>pd.NA\<close>; the driver
  cannot adapt \<open>pd.NA\<close> and \<open>write_row\<close> raises \<open>psycopg.ProgrammingError\<close>, a
  \<open>DatabaseError\<close>. A column of \<open>None\<close> only, or of mixed values, keeps \<open>None\<close>, which
  is written as NULL.
\<close>

fun is_string :: "json \<Rightarrow> bool" where
  "is_string (JStr s) = True"
| "is_string _ = False"

fun is_integer :: "json \<Rightarrow> bool" where
  "is_integer (JInt n) = True"
| "is_integer _ = False"

fun is_boolean :: "json \<Rightarrow> bool" where
  "is_boolean (JBool b) = True"
| "is_boolean _ = False"

definition becomes_na :: "json list \<Rightarrow> bool" where
  "becomes_na vals =
    (let present = filter (\<lambda>v. v \<noteq> JNull) vals
     in JNull \<in> set vals \<and> present \<noteq> [] \<and>
        (list_all is_string present \<or> list_all is_integer present \<or>
         list_all is_boolean present))"

text \<open>
  \<open>copy ... from STDIN\<close>: the rows are appended with the listed columns filled; the
  table, and every listed column, has to exist. The statement is refused before any
  record is written; a record that cannot be written ends the copy without a row loaded.
\<close>

definition copy_from_stdin ::
  "string option \<Rightarrow> string \<Rightarrow> string list \<Rightarrow> json list list \<Rightarrow> database
    \<Rightarrow> exn option \<times> database" where
  "copy_from_stdin schema_name table cols recs db =
    (let db1 = issue (Copy_from_stdin schema_name table cols (length recs)) db in
     case tables db1 (resolve_name schema_name table) of
       None \<Rightarrow> (Some (DatabaseError ''relation does not exist''), db1)
     | Some t \<Rightarrow>
         if cols = [] \<or> \<not> distinct cols \<or> \<not> list_all (\<lambda>c. c \<in> set (tcols t)) cols
         then (Some (DatabaseError ''column list''), db1)
         else if list_ex (\<lambda>c. becomes_na (map (\<lambda>rec. row_of cols rec c) recs)) cols
         then (Some (DatabaseError ''cannot adapt type NAType''), db1)
         else
           (let t' = t\<lparr>trows := trows t @ map (row_of cols) recs\<rparr> in
            if violates t' then (Some (DatabaseError ''constraint violation''), db1)
            else (None, db1\<lparr>tables := (tables db1)(resolve_name schema_name table \<mapsto> t')\<rparr>)))"

definition load_dataframe_to_table ::
  "string option \<Rightarrow> string \<Rightarrow> dataframe \<Rightarrow> database \<Rightarrow> exn option \<times> database" where
  "load_dataframe_to_table schema_name table df db =
    (if length (records df) = 0 then (None, db)
     else copy_from_stdin schema_name table (columns df) (records df) db)"

text \<open>
  \<open>get_primary_key_name\<close>: the query counts the primary-key constraints of the table
  and takes the greatest of their names; with a count of 1 that is the name of the one
  constraint. With any other count the code executes \<open>raise MissingPrimaryKeyException\<close>.
  The class (database/exceptions.py) defines \<open>__init__(self, msg)\<close>, and a \<open>raise\<close> of a
  class instantiates it without arguments, so what is raised is the \<open>TypeError\<close> of the
  missing argument.
\<close>

definition primary_key_names :: "string \<Rightarrow> string \<Rightarrow> database \<Rightarrow> string list" where
  "primary_key_names schema_name table db =
    map constraint_name
      (filter (\<lambda>c. constraint_type c = ''PRIMARY KEY'' \<and> table_schema c = schema_name \<and>
                    table_name c = table)
         (table_constraints db))"

definition get_primary_key_name ::
  "string \<Rightarrow> string \<Rightarrow> database \<Rightarrow> (exn + string) \<times> database" where
  "get_primary_key_name schema_name table db =
    (let db1 = issue (Select_primary_key schema_name table) db in
     case primary_key_names schema_name table db1 of
       [name] \<Rightarrow> (Inr name, db1)
     | _ \<Rightarrow> (Inl (TypeError ''MissingPrimaryKeyException.__init__() missing msg''), db1))"

definition get_key_columns ::
  "string \<Rightarrow> string \<Rightarrow> database \<Rightarrow> string list \<times> database" where
  "get_key_columns schema_name key_name db =
    (map kc_column_name
       (sort_key kc_ordinal_position
          (filter (\<lambda>k. kc_table_schema k = schema_name \<and> kc_constraint_name k = key_name)
             (key_column_usage db))),
     issue (Select_key_columns schema_name key_name) db)"

text \<open>
  \<open>create temporary table if not exists tmp (like schema.table) on commit drop\<close>: nothing
  happens when the temporary table exists; otherwise it gets the columns and the NOT NULL
  declarations of the table it is like, no primary key and no rows.
\<close>

definition create_temporary_table_like ::
  "string \<Rightarrow> string \<Rightarrow> string \<Rightarrow> database \<Rightarrow> exn option \<times> database" where
  "create_temporary_table_like tmp schema_name table db =
    (let db1 = issue (Create_temporary_table_like tmp schema_name table) db in
     case tables db1 (''pg_temp'', tmp) of
       Some t \<Rightarrow> (None, db1)
     | None \<Rightarrow>
         (case tables db1 (schema_name, table) of
            None \<Rightarrow> (Some (DatabaseError ''relation does not exist''), db1)
          | Some t \<Rightarrow>
              (None, db1\<lparr>tables := (tables db1)((''pg_temp'', tmp) \<mapsto>
                 \<lparr>tcols = tcols t, not_null = not_null t, pkey = [], trows = []\<rparr>)\<rparr>)))"

text \<open>
  The \<open>merge\<close> statement the code builds. A source row \<open>s\<close> and a target row \<open>t\<close> are
  joined when they are equal, and not NULL, in every key column. A target row joined to a
  source row takes the source's values in the columns of the \<open>update set\<close> list; a
  target row joined to two source rows makes the statement fail. A source row joined to
  no target row is inserted with the columns of the \<open>insert\<close> list. An empty \<open>on\<close>
  condition or \<open>set\<close> list is a syntax error.
\<close>

definition joined :: "string list \<Rightarrow> row \<Rightarrow> row \<Rightarrow> bool" where
  "joined pk s t = list_all (\<lambda>c. s c \<noteq> JNull \<and> s c = t c) pk"

definition update_set :: "string list \<Rightarrow> row \<Rightarrow> row \<Rightarrow> row" where
  "update_set cols s t = (\<lambda>c. if c \<in> set cols then s c else t c)"

definition insert_values :: "string list \<Rightarrow> row \<Rightarrow> row" where
  "insert_values cols s = (\<lambda>c. if c \<in> set cols then s c else JNull)"

definition merged_rows ::
  "string list \<Rightarrow> string list \<Rightarrow> string list \<Rightarrow> row list \<Rightarrow> row list \<Rightarrow> row list" where
  "merged_rows pk non_pk cols source target =
    map (\<lambda>t. case filter (\<lambda>s. joined pk s t) source of
               [] \<Rightarrow> t
             | s # _ \<Rightarrow> update_set non_pk s t) target
    @ map (insert_values cols) (filter (\<lambda>s. \<not> list_ex (joined pk s) target) source)"

definition merge_into ::
  "string \<Rightarrow> string \<Rightarrow> string \<Rightarrow> string list \<Rightarrow> string list \<Rightarrow> string list \<Rightarrow> database
    \<Rightarrow> exn option \<times> database" where
  "merge_into schema_name table tmp pk non_pk cols db =
    (let db1 = issue (Merge_into schema_name table tmp pk non_pk cols) db in
     if pk = [] \<or> non_pk = [] \<or> cols = [] then (Some (DatabaseError ''syntax error''), db1)
     else
       case (tables db1 (schema_name, table), tables db1 (''pg_temp'', tmp)) of
         (Some t, Some s) \<Rightarrow>
           if \<not> list_all (\<lambda>c. c \<in> set (tcols t) \<and> c \<in> set (tcols s)) (pk @ cols)
           then (Some (DatabaseError ''column does not exist''), db1)
           else if list_ex (\<lambda>r. length (filter (\<lambda>s. joined pk s r) (trows s)) > 1) (trows t)
           then (Some (DatabaseError ''MERGE command cannot affect row a second time''), db1)
           else
             (let t' = t\<lparr>trows := merged_rows pk non_pk cols (trows s) (trows t)\<rparr> in
              if violates t' then (Some (DatabaseError ''constraint violation''), db1)
              else (None, db1\<lparr>tables := (tables db1)((schema_name, table) \<mapsto> t')\<rparr>))
       | _ \<Rightarrow> (Some (DatabaseError ''relation does not exist''), db1))"

definition truncate_table :: "string \<Rightarrow> database \<Rightarrow> exn option \<times> database" where
  "truncate_table tmp db =
    (let db1 = issue (Truncate_table tmp) db in
     case tables db1 (''pg_temp'', tmp) of
       None \<Rightarrow> (Some (DatabaseError ''relation does not exist''), db1)
     | Some t \<Rightarrow> (None, db1\<lparr>tables := (tables db1)((''pg_temp'', tmp) \<mapsto> t\<lparr>trows := []\<rparr>)\<rparr>))"

definition merge_dataframe_into_table ::
  "string \<Rightarrow> string \<Rightarrow> dataframe \<Rightarrow> database \<Rightarrow> exn option \<times> database" where
  "merge_dataframe_into_table schema_name table df db =
    (if length (records df) = 0 then (None, db)
     else
       case get_primary_key_name schema_name table db of
         (Inl e, db1) \<Rightarrow> (Some e, db1)
       | (Inr pk_name, db1) \<Rightarrow>
           (case get_key_columns schema_name pk_name db1 of (pk_columns, db2) \<Rightarrow>
              (let non_pk_columns = filter (\<lambda>col. col \<notin> set pk_columns) (columns df);
                   tmp_table_name = ''tmp_'' @ table
               in case create_temporary_table_like tmp_table_name schema_name table db2 of
                    (Some e, db3) \<Rightarrow> (Some e, db3)
                  | (None, db3) \<Rightarrow>
                      (case load_dataframe_to_table None tmp_table_name df db3 of
                         (Some e, db4) \<Rightarrow> (Some e, db4)
                       | (None, db4) \<Rightarrow>
                           (case merge_into schema_name table tmp_table_name pk_columns
                                   non_pk_columns (columns df) db4 of
                              (Some e, db5) \<Rightarrow> (Some e, db5)
                            | (None, db5) \<Rightarrow> truncate_table tmp_table_name db5)))))"



definition same_catalogue :: "database \<Rightarrow> database \<Rightarrow> bool" where
  "same_catalogue db db' =
    (table_constraints db' = table_constraints db \<and> key_column_usage db' = key_column_usage db)"

section \<open>The conversation pipeline (intercom/conversation)\<close>

subsection \<open>Statements of the pipeline's own steps\<close>

text \<open>
  \<open>select coalesce(max(updated_at), 0) from schema.conversations\<close>: the greatest change
  time stored, 0 for a table without one. The column holds integers (Unix time); a row
  without an integer there counts as NULL.
\<close>

definition updated_at_values :: "row list \<Rightarrow> int list" where
  "updated_at_values rows =
    concat (map (\<lambda>r. case r ''updated_at'' of JInt n \<Rightarrow> [n] | _ \<Rightarrow> []) rows)"

definition max_updated_at :: "row list \<Rightarrow> int" where
  "max_updated_at rows =
    (if updated_at_values rows = [] then 0 else Max (set (updated_at_values rows)))"

definition select_max_updated_at :: "string \<Rightarrow> database \<Rightarrow> (exn + int) \<times> database" where
  "select_max_updated_at schema_name db =
    (let db1 = issue (Select_max_updated_at schema_name) db in
     case tables db1 (schema_name, ''conversations'') of
       None \<Rightarrow> (Inl (DatabaseError ''relation does not exist''), db1)
     | Some t \<Rightarrow> (Inr (max_updated_at (trows t)), db1))"

text \<open>
  \<open>delete from schema.table where column = value\<close> removes the rows equal to the value
  in that column (NULL equals nothing).
\<close>

definition delete_where ::
  "string \<Rightarrow> string \<Rightarrow> string \<Rightarrow> json \<Rightarrow> database \<Rightarrow> exn option \<times> database" where
  "delete_where schema_name table col v db =
    (let db1 = issue (Delete_where schema_name table col v) db in
     case tables db1 (schema_name, table) of
       None \<Rightarrow> (Some (DatabaseError ''relation does not exist''), db1)
     | Some t \<Rightarrow>
         if col \<notin> set (tcols t) then (Some (DatabaseError ''column does not exist''), db1)
         else (None, db1\<lparr>tables := (tables db1)((schema_name, table) \<mapsto>
                 t\<lparr>trows := filter (\<lambda>r. \<not> (v \<noteq> JNull \<and> r col = v)) (trows t)\<rparr>)\<rparr>))"

text \<open>
  A new connection sees the committed state. \<open>commit\<close> makes the session's state the
  committed one and drops the temporary tables (they are created \<open>on commit drop\<close>);
  \<open>rollback\<close> returns to the committed state.
\<close>

definition connect :: "database \<Rightarrow> exn option \<times> database" where
  "connect db =
    (case connect_raises db of
       Some e \<Rightarrow> (Some e, db)
     | None \<Rightarrow> (None, db\<lparr>tables := durable db\<rparr>))"

definition without_temporary ::
  "(string \<times> string \<Rightarrow> table option) \<Rightarrow> (string \<times> string \<Rightarrow> table option)" where
  "without_temporary ts = (\<lambda>(s, t). if s = ''pg_temp'' then None else ts (s, t))"

definition commit :: "database \<Rightarrow> database" where
  "commit db =
    (issue Commit db)\<lparr>tables := without_temporary (tables db),
                      durable := without_temporary (tables db)\<rparr>"

definition rollback :: "database \<Rightarrow> database" where
  "rollback db = (issue Rollback db)\<lparr>tables := durable db\<rparr>"

subsection \<open>Environment and payload\<close>

text \<open>
  What the pipeline object owns beside its payloads: the remote API, the database, and
  whether the attributes \<open>conn\<close> and \<open>cur\<close> have been assigned. A payload is a bag of
  attributes: the four that \<open>GetPayloads\<close> assigns, the API data once fetched, and the
  DataFrames \<open>ParseApiData\<close> assigns under their attribute names. (The payload's \<open>cur\<close>
  is the pipeline's cursor; the steps reach the database through the environment.)
\<close>

record env =
  intercom :: remote
  postgres :: database
  conn :: bool

record payload =
  conversation_id :: string
  start_timestamp :: int
  end_timestamp :: int
  db_schema :: string
  api_data :: "body option"
  frames :: "string \<Rightarrow> dataframe option"

text \<open>Running parts of a step in order; the first exception ends the step.\<close>

fun in_order :: "('s \<Rightarrow> exn option \<times> 's) list \<Rightarrow> 's \<Rightarrow> exn option \<times> 's" where
  "in_order [] s = (None, s)"
| "in_order (f # fs) s =
    (case f s of (Some e, s') \<Rightarrow> (Some e, s') | (None, s') \<Rightarrow> in_order fs s')"

subsection \<open>Pre-execution, post-execution and error-handling steps\<close>

definition GetDatabaseConnection :: "(payload, env) run_step" where
  "GetDatabaseConnection ps e =
    (case connect (postgres e) of
       (Some ex, d) \<Rightarrow> (Some ex, ps, e\<lparr>postgres := d\<rparr>)
     | (None, d) \<Rightarrow> (None, ps, e\<lparr>postgres := d, conn := True\<rparr>))"

definition new_payload :: "string \<Rightarrow> int \<Rightarrow> int \<Rightarrow> string \<Rightarrow> payload" where
  "new_payload cid start until schema_name =
    \<lparr>conversation_id = cid, start_timestamp = start, end_timestamp = until,
     db_schema = schema_name, api_data = None, frames = (\<lambda>a. None)\<rparr>"

definition GetPayloads :: "(payload, env) run_step" where
  "GetPayloads ps e =
    (if \<not> conn e then (Some (AttributeError ''cur''), ps, e)
     else
       case select_max_updated_at ''intercom'' (postgres e) of
         (Inl ex, d) \<Rightarrow> (Some ex, ps, e\<lparr>postgres := d\<rparr>)
       | (Inr start, d) \<Rightarrow>
           (case get_conversation_max_updated_timestamp start 5 5 (intercom e) of
              (Inl ex, a) \<Rightarrow> (Some ex, ps, e\<lparr>postgres := d, intercom := a\<rparr>)
            | (Inr None, a) \<Rightarrow>
                (Some (StopPipelineException
                   ''No updates to conversations found, stopping pipeline.''),
                 ps, e\<lparr>postgres := d, intercom := a\<rparr>)
            | (Inr (Some until), a) \<Rightarrow>
                (case get_conversation_ids_last_updated_between_timestamps start until 5 5 a of
                   (Inl ex, a') \<Rightarrow> (Some ex, ps, e\<lparr>postgres := d, intercom := a'\<rparr>)
                 | (Inr updated_conversation_ids, a') \<Rightarrow>
                     (None,
                      Some (map (\<lambda>cid. new_payload cid start until ''intercom'')
                              updated_conversation_ids),
                      e\<lparr>postgres := d, intercom := a'\<rparr>))))"

definition CommitTransaction :: "(payload, env) run_step" where
  "CommitTransaction ps e =
    (if \<not> conn e then (Some (AttributeError ''conn''), ps, e)
     else (None, ps, e\<lparr>postgres := commit (postgres e)\<rparr>))"

definition RollbackTransaction :: "(payload, env) run_step" where
  "RollbackTransaction ps e =
    (if \<not> conn e then (Some (AttributeError ''conn''), ps, e)
     else (None, ps, e\<lparr>postgres := rollback (postgres e)\<rparr>))"

subsection \<open>Pipeline steps\<close>

definition RetrieveApiData :: "(payload, env) payload_step" where
  "RetrieveApiData x e =
    (case get_conversation_details (conversation_id x) 5 5 (intercom e) of
       (Inl ex, a) \<Rightarrow> (Some ex, x, e\<lparr>intercom := a\<rparr>)
     | (Inr b, a) \<Rightarrow> (None, x\<lparr>api_data := Some b\<rparr>, e\<lparr>intercom := a\<rparr>))"

text \<open>
  \<open>d[k]\<close> on a JSON value: a dictionary gives the value of the key or raises
  \<open>KeyError\<close>; nothing else can be indexed by a string.
\<close>

fun item :: "json \<Rightarrow> string \<Rightarrow> exn + json" where
  "item (JObj kvs) k = (case map_of kvs k of Some v \<Rightarrow> Inr v | None \<Rightarrow> Inl (KeyError k))"
| "item _ k = Inl (TypeError ''not subscriptable by a string'')"

definition item2 :: "json \<Rightarrow> string \<Rightarrow> string \<Rightarrow> exn + json" where
  "item2 d k k' = (case item d k of Inl e \<Rightarrow> Inl e | Inr v \<Rightarrow> item v k')"

text \<open>
  A dictionary display evaluates its values from left to right; the first one that raises
  ends it. \<open>frame_of\<close> is \<open>pd.DataFrame\<close> on a list of dictionaries with the same keys:
  the keys become the columns; an empty list gives a frame without columns or rows.
\<close>

fun row_dict :: "(string \<times> (exn + json)) list \<Rightarrow> exn + (string \<times> json) list" where
  "row_dict [] = Inr []"
| "row_dict ((k, Inl e) # rest) = Inl e"
| "row_dict ((k, Inr v) # rest) =
    (case row_dict rest of Inl e \<Rightarrow> Inl e | Inr kvs \<Rightarrow> Inr ((k, v) # kvs))"

fun row_dicts :: "(string \<times> (exn + json)) list list \<Rightarrow> exn + (string \<times> json) list list" where
  "row_dicts [] = Inr []"
| "row_dicts (d # ds) =
    (case row_dict d of
       Inl e \<Rightarrow> Inl e
     | Inr kvs \<Rightarrow> (case row_dicts ds of Inl e \<Rightarrow> Inl e | Inr rest \<Rightarrow> Inr (kvs # rest)))"

definition frame_of :: "(string \<times> json) list list \<Rightarrow> dataframe" where
  "frame_of dicts =
    (case dicts of
       [] \<Rightarrow> \<lparr>columns = [], records = []\<rparr>
     | d # ds \<Rightarrow> \<lparr>columns = map fst d, records = map (map snd) dicts\<rparr>)"

text \<open>
  \<open>min(api_data['updated_at'], payload.end_timestamp)\<close>: Python compares an integer or
  a boolean (\<open>True\<close> is 1, \<open>False\<close> is 0) with the end and returns the end when it is
  the smaller one, the value itself otherwise; any other value cannot be compared with an
  integer.
\<close>

fun as_int :: "json \<Rightarrow> int option" where
  "as_int (JInt n) = Some n"
| "as_int (JBool b) = Some (if b then 1 else 0)"
| "as_int _ = None"

definition capped :: "exn + json \<Rightarrow> int \<Rightarrow> exn + json" where
  "capped v until =
    (case v of
       Inl e \<Rightarrow> Inl e
     | Inr j \<Rightarrow>
         (case as_int j of
            None \<Rightarrow> Inl (TypeError ''not comparable with int'')
          | Some n \<Rightarrow> if until < n then Inr (JInt until) else Inr j))"

text \<open>
  One assignment \<open>payload.attr = pd.DataFrame(rows)\<close> of \<open>ParseApiData\<close>: the rows are
  computed first, so an exception leaves the attribute as it was.
\<close>

definition assign_frame ::
  "string \<Rightarrow> (exn + (string \<times> json) list list) \<Rightarrow> payload \<Rightarrow> exn option \<times> payload" where
  "assign_frame attr rows x =
    (case rows of
       Inl e \<Rightarrow> (Some e, x)
     | Inr dicts \<Rightarrow> (None, x\<lparr>frames := (frames x)(attr \<mapsto> frame_of dicts)\<rparr>))"

text \<open>
  The pattern \<open>[{...}] if api_data[key] is not None else []\<close>, with the dictionary built
  from the value under the key.
\<close>

definition unless_none ::
  "json \<Rightarrow> string \<Rightarrow> (json \<Rightarrow> (string \<times> (exn + json)) list list)
    \<Rightarrow> exn + (string \<times> json) list list" where
  "unless_none d key rows =
    (case item d key of
       Inl e \<Rightarrow> Inl e
     | Inr JNull \<Rightarrow> Inr []
     | Inr v \<Rightarrow> row_dicts (rows v))"

text \<open>
  Python's \<open>str\<close> of a JSON value is taken as a parameter \<open>str_of\<close>. Iterating over
  \<open>conversation_parts\<close> gives the elements of a list; an empty string or dictionary
  gives nothing; the elements of anything else cannot be indexed by a string.
\<close>

definition elements :: "exn + json \<Rightarrow> exn + json list" where
  "elements v =
    (case v of
       Inl e \<Rightarrow> Inl e
     | Inr (JList parts) \<Rightarrow> Inr parts
     | Inr (JStr s) \<Rightarrow> if s = [] then Inr [] else Inl (TypeError ''string indices'')
     | Inr (JObj kvs) \<Rightarrow> if kvs = [] then Inr [] else Inl (TypeError ''string indices'')
     | Inr _ \<Rightarrow> Inl (TypeError ''not iterable''))"

definition text_of :: "(json \<Rightarrow> string) \<Rightarrow> exn + json \<Rightarrow> exn + json" where
  "text_of str_of v = (case v of Inl e \<Rightarrow> Inl e | Inr j \<Rightarrow> Inr (JStr (str_of j)))"

definition conversations_rows :: "json \<Rightarrow> int \<Rightarrow> (string \<times> (exn + json)) list list" where
  "conversations_rows d until =
    [[(''type'', item d ''type''),
      (''id'', item d ''id''),
      (''title'', item d ''title''),
      (''created_at'', item d ''created_at''),
      (''updated_at'', capped (item d ''updated_at'') until),
      (''waiting_since'', item d ''waiting_since''),
      (''snoozed_until'', item d ''snoozed_until''),
      (''open'', item d ''open''),
      (''state'', item d ''state''),
      (''read'', item d ''read''),
      (''priority'', item d ''priority''),
      (''admin_assignee_id'', item d ''admin_assignee_id''),
      (''team_assignee_id'', item d ''team_assignee_id'')]]"

definition part_row :: "(json \<Rightarrow> string) \<Rightarrow> string \<Rightarrow> json \<Rightarrow> (string \<times> (exn + json)) list" where
  "part_row str_of cid part =
    [(''conversation_id'', Inr (JStr cid)),
     (''type'', item part ''type''),
     (''id'', item part ''id''),
     (''part_type'', item part ''part_type''),
     (''body'', item part ''body''),
     (''created_at'', item part ''created_at''),
     (''updated_at'', item part ''updated_at''),
     (''notified_at'', item part ''notified_at''),
     (''assigned_to'', item part ''assigned_to''),
     (''author'', text_of str_of (item part ''author'')),
     (''attachments'', item part ''attachments''),
     (''external_id'', item part ''external_id''),
     (''redacted'', item part ''redacted'')]"

definition parse_api_data :: "(json \<Rightarrow> string) \<Rightarrow> json \<Rightarrow> payload \<Rightarrow> exn option \<times> payload" where
  "parse_api_data str_of d x =
    (let cid = (''conversation_id'', Inr (JStr (conversation_id x)) :: exn + json) in
     in_order
      [assign_frame ''conversations''
         (row_dicts (conversations_rows d (end_timestamp x))),
       assign_frame ''conversation_tags''
         (unless_none d ''tags'' (\<lambda>v.
            [[cid, (''type'', item v ''type''),
              (''tags'', text_of str_of (item v ''tags''))]])),
       assign_frame ''conversation_ratings''
         (unless_none d ''conversation_rating'' (\<lambda>v.
            [[cid, (''rating'', item v ''rating''),
              (''remark'', item v ''remark''),
              (''created_at'', item v ''created_at''),
              (''contact'', text_of str_of (item v ''contact'')),
              (''teammate'', text_of str_of (item v ''teammate''))]])),
       assign_frame ''conversation_sources''
         (unless_none d ''source'' (\<lambda>v.
            [[cid, (''type'', item v ''type''),
              (''id'', item v ''id''),
              (''delivered_as'', item v ''delivered_as''),
              (''subject'', item v ''subject''),
              (''body'', item v ''body''),
              (''author'', text_of str_of (item v ''author'')),
              (''attachments'', text_of str_of (item v ''attachments'')),
              (''url'', item v ''url''),
              (''redacted'', item v ''redacted'')]])),
       assign_frame ''conversation_contacts''
         (unless_none d ''contacts'' (\<lambda>v.
            [[cid, (''type'', item v ''type''),
              (''contacts'', text_of str_of (item v ''contacts''))]])),
       assign_frame ''conversation_teammates''
         (unless_none d ''teammates'' (\<lambda>v.
            [[cid, (''teammates'', text_of str_of (Inr v))]])),
       assign_frame ''conversation_first_contact_replies''
         (unless_none d ''first_contact_reply'' (\<lambda>v.
            [[cid, (''created_at'', item v ''created_at''),
              (''type'', item v ''type''),
              (''url'', item v ''url'')]])),
       assign_frame ''conversation_sla_applied''
         (unless_none d ''sla_applied'' (\<lambda>v.
            [[cid, (''sla_name'', item v ''sla_name''),
              (''sla_status'', item v ''sla_status'')]])),
       assign_frame ''conversation_statistics''
         (unless_none d ''statistics'' (\<lambda>v.
            [cid # map (\<lambda>k. (k, item v k))
               [''time_to_assignment'', ''time_to_admin_reply'', ''time_to_first_close'',
                ''time_to_last_close'', ''median_time_to_reply'', ''first_contact_reply_at'',
                ''first_assignment_at'', ''first_admin_reply_at'', ''first_close_at'',
                ''last_assignment_at'', ''last_assignment_admin_reply_at'',
                ''last_contact_reply_at'', ''last_admin_reply_at'', ''last_close_at'',
                ''last_closed_by_id'', ''count_reopens'', ''count_assignments'',
                ''count_conversation_parts'']])),
       assign_frame ''conversation_parts''
         (case item d ''conversation_parts'' of
            Inl e \<Rightarrow> Inl e
          | Inr JNull \<Rightarrow> Inr []
          | Inr v \<Rightarrow>
              (case elements (item v ''conversation_parts'') of
                 Inl e \<Rightarrow> Inl e
               | Inr parts \<Rightarrow> row_dicts (map (part_row str_of (conversation_id x)) parts)))]
      x)"

text \<open>
  \<open>ParseApiData\<close> reads \<open>payload.api_data\<close>, which is absent before
  \<open>RetrieveApiData\<close> has run; an answer in the shape of a search result has no key
  \<open>id\<close>.
\<close>

definition ParseApiData :: "(json \<Rightarrow> string) \<Rightarrow> (payload, env) payload_step" where
  "ParseApiData str_of x e =
    (case api_data x of
       None \<Rightarrow> (Some (AttributeError ''api_data''), x, e)
     | Some (SearchResult total_pages conversations) \<Rightarrow> (Some (KeyError ''id''), x, e)
     | Some (Document d) \<Rightarrow>
         (case parse_api_data str_of d x of (r, x') \<Rightarrow> (r, x', e)))"

text \<open>
  \<open>LoadToDatabase\<close>: for nine tables the rows of the conversation are deleted and the
  frame is loaded; the frame of \<open>conversation_parts\<close> is merged. A frame attribute that
  was never assigned raises \<open>AttributeError\<close>.
\<close>

definition replace_rows ::
  "payload \<Rightarrow> string \<Rightarrow> string \<Rightarrow> (database \<Rightarrow> exn option \<times> database) list" where
  "replace_rows x table col =
    [delete_where (db_schema x) table col (JStr (conversation_id x)),
     (\<lambda>d. case frames x table of
             None \<Rightarrow> (Some (AttributeError table), d)
           | Some df \<Rightarrow> load_dataframe_to_table (Some (db_schema x)) table df d)]"

definition load_to_database :: "payload \<Rightarrow> database \<Rightarrow> exn option \<times> database" where
  "load_to_database x =
    in_order
     (replace_rows x ''conversations'' ''id''
      @ replace_rows x ''conversation_contacts'' ''conversation_id''
      @ replace_rows x ''conversation_first_contact_replies'' ''conversation_id''
      @ replace_rows x ''conversation_ratings'' ''conversation_id''
      @ replace_rows x ''conversation_sla_applied'' ''conversation_id''
      @ replace_rows x ''conversation_sources'' ''conversation_id''
      @ replace_rows x ''conversation_statistics'' ''conversation_id''
      @ replace_rows x ''conversation_tags'' ''conversation_id''
      @ replace_rows x ''conversation_teammates'' ''conversation_id''
      @ [\<lambda>d. case frames x ''conversation_parts'' of
                None \<Rightarrow> (Some (AttributeError ''conversation_parts''), d)
              | Some df \<Rightarrow>
                  merge_dataframe_into_table (db_schema x) ''conversation_parts'' df d])"

definition LoadToDatabase :: "(payload, env) payload_step" where
  "LoadToDatabase x e =
    (case load_to_database x (postgres e) of (r, d) \<Rightarrow> (r, x, e\<lparr>postgres := d\<rparr>))"

subsection \<open>The pipeline object (intercom/conversation/pipeline.py)\<close>

text \<open>
  The module creates the pipeline and assigns its four step lists; \<open>payloads\<close> stays
  unassigned until \<open>GetPayloads\<close> has run.
\<close>

definition IntercomConversationPipeline :: "(json \<Rightarrow> string) \<Rightarrow> env \<Rightarrow> (payload, env) pipeline" where
  "IntercomConversationPipeline str_of e =
    \<lparr>payloads = None,
     pre_execution_steps =
       [(''GetDatabaseConnection'', GetDatabaseConnection), (''GetPayloads'', GetPayloads)],
     pipeline_steps =
       [(''RetrieveApiData'', RetrieveApiData), (''ParseApiData'', ParseApiData str_of),
        (''LoadToDatabase'', LoadToDatabase)],
     post_execution_steps = [(''CommitTransaction'', CommitTransaction)],
     error_handling_steps = [(''RollbackTransaction'', RollbackTransaction)],
     env = e, logged = []\<rparr>"

text \<open>The watermark: the greatest change time among the committed conversations.\<close>

definition watermark :: "database \<Rightarrow> int" where
  "watermark d =
    (case durable d (''intercom'', ''conversations'') of
       Some t \<Rightarrow> max_updated_at (trows t)
     | None \<Rightarrow> 0)"

subsection \<open>Committed conversations and the end a run resolves\<close>

text \<open>
  The rows of \<open>intercom.conversations\<close> in a state of the tables; none when the table is
  missing.
\<close>

definition stored_conversations :: "(string \<times> string \<Rightarrow> table option) \<Rightarrow> row list" where
  "stored_conversations ts =
    (case ts (''intercom'', ''conversations'') of Some t \<Rightarrow> trows t | None \<Rightarrow> [])"

text \<open>
  The end a run resolves from an environment: what the max-change-time query returns when
  it is asked with the watermark, as \<open>GetPayloads\<close> asks it.
\<close>

definition resolved_end :: "env \<Rightarrow> int option" where
  "resolved_end e =
    (case fst (get_conversation_max_updated_timestamp (watermark (postgres e)) 5 5 (intercom e)) of
       Inr (Some until) \<Rightarrow> Some until
     | _ \<Rightarrow> None)"

text \<open>
  The outcomes of a step that do not reach the error handling: a normal return and the
  two stop signals.
\<close>

fun not_an_error :: "exn option \<Rightarrow> bool" where
  "not_an_error None = True"
| "not_an_error (Some (StopPayloadException msg)) = True"
| "not_an_error (Some (StopPipelineException msg)) = True"
| "not_an_error (Some _) = False"

text \<open>
  The answers a run received. The remote side counts the requests it served and keeps
  the calls made; \<open>received r r'\<close> lists, for a state \<open>r\<close> and a later state \<open>r'\<close> of
  it, the answers to the requests sent in between, in the order they were sent.
\<close>

definition requests_sent :: "remote \<Rightarrow> request list" where
  "requests_sent r =
    concat (map (\<lambda>c. case c of HttpRequest req \<Rightarrow> [req] | Sleep n \<Rightarrow> []) (calls r))"

definition received :: "remote \<Rightarrow> remote \<Rightarrow> response list" where
  "received r r' =
    map (\<lambda>(n, req). answers r n req)
      (zip [served r..<served r'] (drop (length (requests_sent r)) (requests_sent r')))"

text \<open>
  An answer reports only conversations changed after a time: every conversation it counts
  has a later change time, and when it is the document of a conversation whose
  \<open>updated_at\<close> can be compared with the end (an integer or a boolean), that is an
  integer after the time.
\<close>

definition changed_after :: "int \<Rightarrow> response \<Rightarrow> bool" where
  "changed_after start resp =
    (list_all (\<lambda>c. start < updated_at c) (counted resp) \<and>
     (case body resp of
        Document d \<Rightarrow>
          (case item d ''updated_at'' of
             Inr (JInt n) \<Rightarrow> start < n
           | Inr (JBool b) \<Rightarrow> False
           | _ \<Rightarrow> True)
      | SearchResult total_pages conversations \<Rightarrow> True))"

text \<open>
  A state of the remote side follows another when the service answers as before, the
  token is the same, and requests were only added, each one counted.
\<close>

abbreviation follows :: "remote \<Rightarrow> remote \<Rightarrow> bool" where
  "follows r r' \<equiv>
     answers r' = answers r \<and> api_token r' = api_token r \<and>
     (\<exists>reqs. requests_sent r' = requests_sent r @ reqs \<and> served r' = served r + length reqs)"

section \<open>Inputs for the witnesses and counterexamples\<close>

definition example_pipeline :: "exn option \<Rightarrow> exn option \<Rightarrow> (nat, string list) pipeline" where
  "example_pipeline r r' =
    \<lparr>payloads = Some [],
     pre_execution_steps = [(''Pre'', \<lambda>ps s. (r, ps, s @ [''pre'']))],
     pipeline_steps = [],
     post_execution_steps = [(''Post'', \<lambda>ps s. (None, ps, s @ [''post'']))],
     error_handling_steps = [(''Handler'', \<lambda>ps s. (r', ps, s @ [''handler'']))],
     env = [], logged = []\<rparr>"

definition example_queue :: "exn option \<Rightarrow> (nat, nat list) pipeline" where
  "example_queue r =
    \<lparr>payloads = Some [7, 8, 9],
     pre_execution_steps = [],
     pipeline_steps = [(''Record'', \<lambda>x s. (r, x + 100, s @ [x]))],
     post_execution_steps = [],
     error_handling_steps = [],
     env = [], logged = []\<rparr>"

definition failing_remote :: remote where
  "failing_remote =
    \<lparr>api_token = Some ''token'',
     answers = (\<lambda>n req. \<lparr>status = Some ''503 Service Unavailable'', body = Document JNull\<rparr>),
     served = 0, calls = []\<rparr>"

definition sample_conversations :: "conversation list" where
  "sample_conversations =
      [\<lparr>conv_id = ''a'', updated_at = 120, source_type = ''conversation''\<rparr>,
       \<lparr>conv_id = ''b'', updated_at = 140, source_type = ''email''\<rparr>,
       \<lparr>conv_id = ''c'', updated_at = 110, source_type = ''conversation''\<rparr>]"

definition mixed_remote :: "conversation list \<Rightarrow> remote" where
  "mixed_remote cs =
    \<lparr>api_token = Some ''token'',
     answers = (\<lambda>n req. \<lparr>status = Some ''200 OK'', body = SearchResult 1 cs\<rparr>),
     served = 0, calls = []\<rparr>"

definition empty_window_remote :: remote where
  "empty_window_remote =
    \<lparr>api_token = Some ''token'',
     answers = (\<lambda>n req. \<lparr>status = Some ''200 OK'', body = SearchResult 0 []\<rparr>),
     served = 0, calls = []\<rparr>"

definition parts_table :: "row list \<Rightarrow> table" where
  "parts_table rows =
    \<lparr>tcols = [''conversation_id'', ''id'', ''body''], not_null = [''id''], pkey = [''id''],
     trows = rows\<rparr>"

definition parts_database :: "table_constraint list \<Rightarrow> row list \<Rightarrow> database" where
  "parts_database constraints rows =
    \<lparr>tables = [(''intercom'', ''conversation_parts'') \<mapsto> parts_table rows],
     durable = [(''intercom'', ''conversation_parts'') \<mapsto> parts_table rows],
     table_constraints = constraints,
     key_column_usage =
       [\<lparr>kc_table_schema = ''intercom'', kc_constraint_name = ''conversation_parts_pkey'',
         kc_column_name = ''id'', kc_ordinal_position = 1\<rparr>],
     statements = [], connect_raises = None\<rparr>"

definition parts_frame :: "json list list \<Rightarrow> dataframe" where
  "parts_frame recs = \<lparr>columns = [''conversation_id'', ''id'', ''body''], records = recs\<rparr>"

definition parts_pkey :: "string \<Rightarrow> table_constraint" where
  "parts_pkey name =
    \<lparr>constraint_name = name, constraint_type = ''PRIMARY KEY'',
     table_schema = ''intercom'', table_name = ''conversation_parts''\<rparr>"



definition conversation_columns :: "string list" where
  "conversation_columns =
    [''type'', ''id'', ''title'', ''created_at'', ''updated_at'', ''waiting_since'',
     ''snoozed_until'', ''open'', ''state'', ''read'', ''priority'', ''admin_assignee_id'',
     ''team_assignee_id'']"

definition sample_tables :: "row list \<Rightarrow> string \<times> string \<Rightarrow> table option" where
  "sample_tables rows =
    (\<lambda>(s, t).
       if s \<noteq> ''intercom'' then None
       else if t = ''conversations'' then
         Some \<lparr>tcols = conversation_columns, not_null = [''id''], pkey = [''id''], trows = rows\<rparr>
       else if t \<in> set [''conversation_contacts'', ''conversation_first_contact_replies'',
                 ''conversation_ratings'', ''conversation_sla_applied'', ''conversation_sources'',
                 ''conversation_statistics'', ''conversation_tags'', ''conversation_teammates'',
                 ''conversation_parts''] then
         Some \<lparr>tcols = [''conversation_id''], not_null = [], pkey = [], trows = []\<rparr>
       else None)"

definition sample_store :: "row list \<Rightarrow> database" where
  "sample_store rows =
    \<lparr>tables = sample_tables rows, durable = sample_tables rows, table_constraints = [],
     key_column_usage = [], statements = [], connect_raises = None\<rparr>"

definition stored_conversation :: "string \<Rightarrow> int \<Rightarrow> row" where
  "stored_conversation cid changed =
    row_of [''id'', ''updated_at''] [JStr cid, JInt changed]"

text \<open>A stand-in for Python's \<open>str\<close> in the runs evaluated below.\<close>

definition blank_str :: "json \<Rightarrow> string" where
  "blank_str j = []"

definition quiet_env :: env where
  "quiet_env =
    \<lparr>intercom = mixed_remote [\<lparr>conv_id = ''b'', updated_at = 140, source_type = ''email''\<rparr>],
     postgres = sample_store [stored_conversation ''a'' 100],
     conn = False\<rparr>"

definition unreachable_env :: env where
  "unreachable_env =
    \<lparr>intercom = failing_remote,
     postgres = (sample_store [])\<lparr>connect_raises := Some (DatabaseError ''connection refused'')\<rparr>,
     conn = False\<rparr>"

text \<open>
  Two services whose answers disagree with each other. The document of a conversation
  has every optional part absent. The answers are given by the number of the request.

  The search index of \<open>lagging_remote\<close> lags behind: the max-change-time query of the
  first run finds \<open>x\<close>, changed at 150; the search for the window (two requests) finds
  only \<open>y\<close>, changed at 120; then comes the document of \<open>y\<close>; the max-change-time query
  of the second run finds \<open>z\<close>, changed at 130.

  The documents of \<open>stale_remote\<close> lag behind its search index: the query and the search
  for the window find the stored conversation \<open>a\<close>, changed at 150, and its document
  still says 90.
\<close>

definition conversation_document :: "string \<Rightarrow> int \<Rightarrow> json" where
  "conversation_document cid changed =
    JObj [(''type'', JStr ''conversation''), (''id'', JStr cid), (''title'', JStr ''Hello''),
          (''created_at'', JInt 80), (''updated_at'', JInt changed),
          (''waiting_since'', JInt 85), (''snoozed_until'', JInt 0), (''open'', JBool True),
          (''state'', JStr ''open''), (''read'', JBool True), (''priority'', JStr ''not_priority''),
          (''admin_assignee_id'', JInt 7), (''team_assignee_id'', JInt 3),
          (''tags'', JNull), (''conversation_rating'', JNull), (''source'', JNull),
          (''contacts'', JNull), (''teammates'', JNull), (''first_contact_reply'', JNull),
          (''sla_applied'', JNull), (''statistics'', JNull), (''conversation_parts'', JNull)]"

definition found :: "string \<Rightarrow> int \<Rightarrow> response" where
  "found cid changed =
    \<lparr>status = Some ''200 OK'',
     body = SearchResult 1 [\<lparr>conv_id = cid, updated_at = changed,
                              source_type = ''conversation''\<rparr>]\<rparr>"

definition unavailable :: response where
  "unavailable = \<lparr>status = Some ''503 Service Unavailable'', body = Document JNull\<rparr>"

definition lagging_remote :: remote where
  "lagging_remote =
    \<lparr>api_token = Some ''token'',
     answers = (\<lambda>n req.
        if n = 0 then found ''x'' 150
        else if n = 1 \<or> n = 2 then found ''y'' 120
        else if n = 3 then
          \<lparr>status = Some ''200 OK'', body = Document (conversation_document ''y'' 120)\<rparr>
        else if n = 4 then found ''z'' 130
        else unavailable),
     served = 0, calls = []\<rparr>"

definition lagging_env :: env where
  "lagging_env =
    \<lparr>intercom = lagging_remote,
     postgres = sample_store [stored_conversation ''a'' 100],
     conn = False\<rparr>"

definition stale_remote :: remote where
  "stale_remote =
    \<lparr>api_token = Some ''token'',
     answers = (\<lambda>n req.
        if n \<le> 2 then found ''a'' 150
        else if n = 3 then
          \<lparr>status = Some ''200 OK'', body = Document (conversation_document ''a'' 90)\<rparr>
        else unavailable),
     served = 0, calls = []\<rparr>"

definition stale_env :: env where
  "stale_env =
    \<lparr>intercom = stale_remote,
     postgres = sample_store [stored_conversation ''a'' 100],
     conn = False\<rparr>"

section \<open>Properties of the engine\<close>


lemma phase_runs_append: "phase_runs ph (l @ l') = phase_runs ph l + phase_runs ph l'"
  by (simp add: phase_runs_def)

lemma phase_runs_log_info:
  "phase_runs ph (logged (log_info ev p)) =
     phase_runs ph (logged p) + (if starts_phase ph ev then 1 else 0)"
  by (simp add: phase_runs_def log_info_def)

lemma phase_runs_step_list:
  "phase_runs ph (logged (snd (run_step_list ph' steps p))) = phase_runs ph (logged p)"
proof (induction steps arbitrary: p)
  case Nil
  then show ?case by simp
next
  case (Cons a steps)
  obtain name step where a: "a = (name, step)" by (cases a)
  show ?case
    by (simp add: a Let_def Cons.IH phase_runs_log_info
        split: prod.splits option.splits)
qed

lemma phase_runs_run_phase:
  "phase_runs ph (logged (snd (run_phase ph' steps p))) =
     phase_runs ph (logged p) + (if ph = ph' then 1 else 0)"
proof -
  let ?q = "log_info (StepsToExecute ph' (length steps)) p"
  have "phase_runs ph (logged (snd (run_step_list ph' steps ?q))) = phase_runs ph (logged ?q)"
    by (rule phase_runs_step_list)
  then show ?thesis
    by (cases "run_step_list ph' steps ?q")
       (auto simp: run_phase_def phase_runs_log_info
             split: option.splits)
qed

lemma phase_runs_payload_steps:
  "phase_runs ph (logged (snd (snd (run_payload_steps steps x p)))) = phase_runs ph (logged p)"
proof (induction steps arbitrary: x p)
  case Nil
  then show ?case by simp
next
  case (Cons a steps)
  obtain name step where a: "a = (name, step)" by (cases a)
  show ?case
    by (simp add: a Let_def Cons.IH phase_runs_log_info
        split: prod.splits option.splits exn.splits)
qed

lemma phase_runs_run_payload:
  "phase_runs ph (logged (snd (snd (run_payload p x)))) = phase_runs ph (logged p)"
  using phase_runs_payload_steps [of ph "pipeline_steps p" x p]
  by (cases "run_payload_steps (pipeline_steps p) x p")
     (auto simp: run_payload_def phase_runs_log_info
           split: option.splits)

lemma phase_runs_payload_queue:
  "phase_runs ph (logged (snd (run_payload_queue q p))) = phase_runs ph (logged p)"
proof (induction q arbitrary: p)
  case Nil
  then show ?case by simp
next
  case (Cons x xs)
  let ?p0 = "log_info (PayloadsToProcess (length (x # xs))) (p\<lparr>payloads := Some (x # xs)\<rparr>)"
  have "phase_runs ph (logged (snd (snd (run_payload ?p0 x)))) = phase_runs ph (logged ?p0)"
    by (rule phase_runs_run_payload)
  then show ?case
    by (cases "run_payload ?p0 x")
       (auto simp: Cons.IH phase_runs_log_info
             split: option.splits)
qed

lemma phase_runs_all_payloads:
  "phase_runs ph (logged (snd (run_all_payloads p))) = phase_runs ph (logged p)"
proof (cases "payloads p")
  case None
  then show ?thesis by (simp add: run_all_payloads_def)
next
  case (Some q)
  show ?thesis
  proof (cases q)
    case Nil
    with Some show ?thesis
      by (simp add: run_all_payloads_def phase_runs_log_info)
  next
    case (Cons x xs)
    have "phase_runs ph (logged (snd (run_payload_queue (x # xs) p))) = phase_runs ph (logged p)"
      by (rule phase_runs_payload_queue)
    with Some Cons show ?thesis
      by (cases "run_payload_queue (x # xs) p")
         (auto simp: run_all_payloads_def phase_runs_log_info
               split: option.splits)
  qed
qed


lemma phase_runs_pre_execution_and_payloads:
  "phase_runs ph (logged (snd (pre_execution_and_payloads p))) =
     phase_runs ph (logged p) + (if ph = PreExecution then 1 else 0)"
proof (cases "run_pre_execution_steps p")
  case (Pair r q)
  have q: "phase_runs ph (logged q) = phase_runs ph (logged p) + (if ph = PreExecution then 1 else 0)"
    using phase_runs_run_phase [of ph PreExecution "pre_execution_steps p" p] Pair
    by (simp add: run_pre_execution_steps_def)
  show ?thesis
  proof (cases r)
    case None
    with Pair q show ?thesis
      by (simp add: pre_execution_and_payloads_def phase_runs_all_payloads)
  next
    case (Some e)
    with Pair q show ?thesis by (simp add: pre_execution_and_payloads_def)
  qed
qed

lemma phase_runs_post:
  "phase_runs ph (logged (snd (run_post_execution_steps p))) =
     phase_runs ph (logged p) + (if ph = PostExecution then 1 else 0)"
  by (simp add: run_post_execution_steps_def phase_runs_run_phase)

lemma phase_runs_handle_unexpected:
  "phase_runs ph (logged (snd (handle_unexpected e p))) =
     phase_runs ph (logged p) + (if ph = ErrorHandling then 1 else 0)"
  using phase_runs_run_phase [of ph ErrorHandling
      "error_handling_steps (log_info (UnexpectedError e) p)" "log_info (UnexpectedError e) p"]
  by (cases "run_error_handling (log_info (UnexpectedError e) p)")
     (auto simp: handle_unexpected_def run_error_handling_def phase_runs_log_info
           split: option.splits)

lemma fst_handle_unexpected: "fst (handle_unexpected e p) \<noteq> None"
  by (simp add: handle_unexpected_def split: prod.splits option.splits)

lemma execute_cases:
  assumes "pre_execution_and_payloads p = (r1, p1)"
  shows "execute p =
    (if r1 = None then
       (case run_post_execution_steps p1 of
          (None, p2) \<Rightarrow> (None, p2) | (Some e, p2) \<Rightarrow> handle_unexpected e p2)
     else if is_stop_pipeline (the r1) then
       (case run_post_execution_steps
               (log_info (StoppingPipelineEarly (case the r1 of StopPipelineException m \<Rightarrow> m | _ \<Rightarrow> [])) p1) of
          (None, p2) \<Rightarrow> (None, p2) | (Some e, p2) \<Rightarrow> handle_unexpected e p2)
     else handle_unexpected (the r1) p1)"
  using assms
  by (cases r1; cases "the r1")
     (auto simp: execute_def split: prod.splits option.splits exn.splits)


lemma queue_lengths_append: "queue_lengths (l @ l') = queue_lengths l @ queue_lengths l'"
  by (induction l rule: queue_lengths.induct) auto

lemma queue_lengths_log_info:
  "queue_lengths (logged (log_info ev p)) = queue_lengths (logged p) @ queue_lengths [ev]"
  by (simp add: log_info_def queue_lengths_append)

lemma queue_lengths_payload_steps:
  "queue_lengths (logged (snd (snd (run_payload_steps steps x p)))) = queue_lengths (logged p)"
proof (induction steps arbitrary: x p)
  case Nil
  then show ?case by simp
next
  case (Cons a steps)
  obtain name step where a: "a = (name, step)" by (cases a)
  show ?case
    by (simp add: a Let_def Cons.IH queue_lengths_log_info
        split: prod.splits option.splits exn.splits)
qed

lemma queue_lengths_run_payload:
  "queue_lengths (logged (snd (snd (run_payload p x)))) = queue_lengths (logged p)"
  using queue_lengths_payload_steps [of "pipeline_steps p" x p]
  by (cases "run_payload_steps (pipeline_steps p) x p")
     (auto simp: run_payload_def queue_lengths_log_info split: option.splits)

text \<open>What a payload's run makes of the environment depends on the steps and the environment only.\<close>

lemma run_payload_steps_env_only:
  "env p = env p2 \<Longrightarrow>
   fst (run_payload_steps steps x p) = fst (run_payload_steps steps x p2) \<and>
   fst (snd (run_payload_steps steps x p)) = fst (snd (run_payload_steps steps x p2)) \<and>
   env (snd (snd (run_payload_steps steps x p))) = env (snd (snd (run_payload_steps steps x p2)))"
proof (induction steps arbitrary: x p p2)
  case Nil
  then show ?case by simp
next
  case (Cons a steps)
  obtain name step where a: "a = (name, step)" by (cases a)
  obtain r x' s where st: "step x (env p2) = (r, x', s)" by (cases "step x (env p2)")
  show ?case
  proof (cases r)
    case None
    have "env (log_info (FinishedPipelineStep name) (log_info (StartingPipelineStep name) p\<lparr>env := s\<rparr>))
        = env (log_info (FinishedPipelineStep name) (log_info (StartingPipelineStep name) p2\<lparr>env := s\<rparr>))"
      by (simp add: log_info_def)
    from Cons.IH [OF this, of x'] None st Cons.prems show ?thesis
      by (simp add: a Let_def log_info_def)
  next
    case (Some e)
    with st Cons.prems show ?thesis
      by (cases e) (simp_all add: a Let_def log_info_def)
  qed
qed

lemma pipeline_steps_payload_steps:
  "pipeline_steps (snd (snd (run_payload_steps steps x p))) = pipeline_steps p"
proof (induction steps arbitrary: x p)
  case Nil
  then show ?case by simp
next
  case (Cons a steps)
  obtain name step where a: "a = (name, step)" by (cases a)
  show ?case
    by (simp add: a Let_def Cons.IH log_info_def split: prod.splits option.splits exn.splits)
qed

lemma pipeline_steps_run_payload:
  "pipeline_steps (snd (snd (run_payload p x))) = pipeline_steps p"
  using pipeline_steps_payload_steps [of "pipeline_steps p" x p]
  by (cases "run_payload_steps (pipeline_steps p) x p")
     (auto simp: run_payload_def log_info_def split: option.splits)

lemma run_payload_env_only:
  assumes "env p = env p2" and "pipeline_steps p = pipeline_steps p2"
  shows "fst (run_payload p x) = fst (run_payload p2 x) \<and>
         env (snd (snd (run_payload p x))) = env (snd (snd (run_payload p2 x)))"
  using run_payload_steps_env_only [OF assms(1), of "pipeline_steps p2" x] assms(2)
  by (cases "run_payload_steps (pipeline_steps p2) x p";
      cases "run_payload_steps (pipeline_steps p2) x p2")
     (auto simp: run_payload_def log_info_def split: option.splits)

lemma run_payload_queue_payloads:
  "\<exists>q'. payloads (snd (run_payload_queue q p)) = Some q' \<and> suffix (tl q') q \<and>
        (fst (run_payload_queue q p) = None \<longrightarrow> q' = [])"
proof (induction q arbitrary: p)
  case Nil
  then show ?case by simp
next
  case (Cons x xs)
  let ?p0 = "log_info (PayloadsToProcess (length (x # xs))) (p\<lparr>payloads := Some (x # xs)\<rparr>)"
  obtain r x' p' where rp: "run_payload ?p0 x = (r, x', p')"
    by (cases "run_payload ?p0 x")
  show ?case
  proof (cases r)
    case (Some e)
    with rp show ?thesis by (simp add: suffix_ConsI)
  next
    case None
    with rp Cons.IH [of "p'\<lparr>payloads := Some xs\<rparr>"] show ?thesis
      by (auto simp: suffix_ConsI)
  qed
qed

lemma run_payload_queue_lengths:
  "fst (run_payload_queue q p) = None \<Longrightarrow>
   queue_lengths (logged (snd (run_payload_queue q p))) =
     queue_lengths (logged p) @ rev [1..<Suc (length q)]"
proof (induction q arbitrary: p)
  case Nil
  then show ?case by simp
next
  case (Cons x xs)
  let ?p0 = "log_info (PayloadsToProcess (length (x # xs))) (p\<lparr>payloads := Some (x # xs)\<rparr>)"
  obtain r x' p' where rp: "run_payload ?p0 x = (r, x', p')"
    by (cases "run_payload ?p0 x")
  have ql: "queue_lengths (logged p') = queue_lengths (logged p) @ [Suc (length xs)]"
    using queue_lengths_run_payload [of ?p0 x] rp
    by (simp add: queue_lengths_log_info)
  show ?case
  proof (cases r)
    case (Some e)
    with rp Cons.prems show ?thesis by simp
  next
    case None
    with rp Cons.prems have "fst (run_payload_queue xs (p'\<lparr>payloads := Some xs\<rparr>)) = None"
      by simp
    from Cons.IH [OF this] None rp ql show ?thesis
      by simp
  qed
qed

lemma run_payload_queue_env:
  "fst (run_payload_queue q p) = None \<Longrightarrow>
   env (snd (run_payload_queue q p)) =
     foldl (\<lambda>s x. env (snd (snd (run_payload (p\<lparr>env := s\<rparr>) x)))) (env p) q"
proof (induction q arbitrary: p)
  case Nil
  then show ?case by simp
next
  case (Cons x xs)
  let ?p0 = "log_info (PayloadsToProcess (length (x # xs))) (p\<lparr>payloads := Some (x # xs)\<rparr>)"
  obtain r x' p' where rp: "run_payload ?p0 x = (r, x', p')"
    by (cases "run_payload ?p0 x")
  let ?p1 = "p'\<lparr>payloads := Some xs\<rparr>"
  have ps: "pipeline_steps p' = pipeline_steps p"
    using pipeline_steps_run_payload [of ?p0 x] rp by (simp add: log_info_def)
  have e1: "env p' = env (snd (snd (run_payload (p\<lparr>env := env p\<rparr>) x)))"
    using run_payload_env_only [of ?p0 "p\<lparr>env := env p\<rparr>" x] rp
    by (simp add: log_info_def)
  have same: "env (snd (snd (run_payload (?p1\<lparr>env := s\<rparr>) y)))
          = env (snd (snd (run_payload (p\<lparr>env := s\<rparr>) y)))" for s y
    using run_payload_env_only [of "?p1\<lparr>env := s\<rparr>" "p\<lparr>env := s\<rparr>" y] ps by simp
  show ?case
  proof (cases r)
    case (Some e)
    with rp Cons.prems show ?thesis by simp
  next
    case None
    with rp Cons.prems have "fst (run_payload_queue xs ?p1) = None"
      by simp
    from Cons.IH [OF this] None rp e1 show ?thesis
      by (simp add: same)
  qed
qed


text \<open>
  Claim C1, as amended. Let the inner \<open>try\<close> block (pre-execution, then the payloads) end
  with \<open>r1\<close> in state \<open>p1\<close>.
  \<^item> If it raised \<open>StopPipelineException\<close>, or raised nothing, the post-execution steps run
    (once), and when they complete \<open>execute\<close> returns normally with their state.
  \<^item> When \<open>execute\<close> returns normally the error handling has not run.
  \<^item> If the block raised any other exception, or post-execution raised an exception, the
    outcome is that of the handler for this exception in the state the raise left; whenever
    \<open>execute\<close> raises, the error handling was entered exactly once.
  \<^item> The handler raises the exception it was given when the error-handling steps
    complete, and the exception of the failing error-handling step otherwise.
\<close>

theorem execute_contract:
  assumes "pre_execution_and_payloads p = (r1, p1)"
  shows
   "(\<forall>msg p2. r1 = Some (StopPipelineException msg) \<and>
        run_post_execution_steps (log_info (StoppingPipelineEarly msg) p1) = (None, p2)
        \<longrightarrow> execute p = (None, p2))
  \<and> (\<forall>p2. r1 = None \<and> run_post_execution_steps p1 = (None, p2) \<longrightarrow> execute p = (None, p2))
  \<and> ((r1 = None \<or> (\<exists>msg. r1 = Some (StopPipelineException msg))) \<longrightarrow>
        phase_runs PostExecution (logged (snd (execute p))) =
          Suc (phase_runs PostExecution (logged p)))
  \<and> (fst (execute p) = None \<longrightarrow>
        phase_runs ErrorHandling (logged (snd (execute p))) = phase_runs ErrorHandling (logged p))
  \<and> (\<forall>e. r1 = Some e \<and> \<not> is_stop_pipeline e \<longrightarrow> execute p = handle_unexpected e p1)
  \<and> (\<forall>e p2. r1 = None \<and> run_post_execution_steps p1 = (Some e, p2)
        \<longrightarrow> execute p = handle_unexpected e p2)
  \<and> (\<forall>msg e p2. r1 = Some (StopPipelineException msg) \<and>
        run_post_execution_steps (log_info (StoppingPipelineEarly msg) p1) = (Some e, p2)
        \<longrightarrow> execute p = handle_unexpected e p2)
  \<and> (fst (execute p) \<noteq> None \<longrightarrow>
        phase_runs ErrorHandling (logged (snd (execute p))) =
          Suc (phase_runs ErrorHandling (logged p)))
  \<and> (\<forall>e q q'. run_error_handling (log_info (UnexpectedError e) q) = (None, q')
        \<longrightarrow> handle_unexpected e q = (Some e, q'))
  \<and> (\<forall>e e' q q'. run_error_handling (log_info (UnexpectedError e) q) = (Some e', q')
        \<longrightarrow> handle_unexpected e q = (Some e', q'))"
proof -
  have pr: "phase_runs ph (logged p1) =
      phase_runs ph (logged p) + (if ph = PreExecution then 1 else 0)" for ph
    using phase_runs_pre_execution_and_payloads [of ph p] assms by simp
  have post: "run_post_execution_steps q = (r2, p2) \<Longrightarrow> phase_runs ph (logged p2) =
      phase_runs ph (logged q) + (if ph = PostExecution then 1 else 0)" for ph q r2 p2
    using phase_runs_post [of ph q] by simp
  have hu: "phase_runs ph (logged (snd (handle_unexpected e q))) =
      phase_runs ph (logged q) + (if ph = ErrorHandling then 1 else 0)" for ph e q
    by (rule phase_runs_handle_unexpected)
  have hn: "fst (handle_unexpected e q) \<noteq> None" for e q
    by (rule fst_handle_unexpected)
  have stop: "execute p = (case run_post_execution_steps (log_info (StoppingPipelineEarly msg) p1) of
          (None, p2) \<Rightarrow> (None, p2) | (Some e, p2) \<Rightarrow> handle_unexpected e p2)"
    if "r1 = Some (StopPipelineException msg)" for msg
    using that assms by (simp add: execute_def split: prod.splits option.splits)
  have normal: "execute p = (case run_post_execution_steps p1 of
          (None, p2) \<Rightarrow> (None, p2) | (Some e, p2) \<Rightarrow> handle_unexpected e p2)"
    if "r1 = None"
    using that assms by (simp add: execute_def split: prod.splits option.splits)
  have other: "execute p = handle_unexpected e p1" if "r1 = Some e" "\<not> is_stop_pipeline e" for e
    using that assms by (cases e) (simp_all add: execute_def)
  consider (A) q p2 where "phase_runs PostExecution (logged q) = phase_runs PostExecution (logged p)"
        "phase_runs ErrorHandling (logged q) = phase_runs ErrorHandling (logged p)"
        "run_post_execution_steps q = (None, p2)" "execute p = (None, p2)"
        "r1 = None \<or> (\<exists>msg. r1 = Some (StopPipelineException msg))"
    | (B) q e p2 where "phase_runs PostExecution (logged q) = phase_runs PostExecution (logged p)"
        "phase_runs ErrorHandling (logged q) = phase_runs ErrorHandling (logged p)"
        "run_post_execution_steps q = (Some e, p2)" "execute p = handle_unexpected e p2"
        "r1 = None \<or> (\<exists>msg. r1 = Some (StopPipelineException msg))"
    | (C) e where "r1 = Some e" "\<not> is_stop_pipeline e" "execute p = handle_unexpected e p1"
  proof (cases r1)
    case None
    obtain r2 p2 where rp: "run_post_execution_steps p1 = (r2, p2)"
      by (cases "run_post_execution_steps p1")
    show ?thesis
    proof (cases r2)
      case None2: None
      show ?thesis
        using A [of p1 p2] None None2 rp normal pr by simp
    next
      case (Some e)
      show ?thesis
        using B [of p1 e p2] None Some rp normal pr by simp
    qed
  next
    case (Some e)
    show ?thesis
    proof (cases "is_stop_pipeline e")
      case False
      with Some other C show ?thesis by blast
    next
      case True
      then obtain msg where e: "e = StopPipelineException msg" by (cases e) auto
      let ?q = "log_info (StoppingPipelineEarly msg) p1"
      have q: "phase_runs ph (logged ?q) = phase_runs ph (logged p1)" for ph
        by (simp add: phase_runs_log_info)
      obtain r2 p2 where rp: "run_post_execution_steps ?q = (r2, p2)"
        by (cases "run_post_execution_steps ?q")
      show ?thesis
      proof (cases r2)
        case None
        show ?thesis
          using A [of ?q p2] None Some e rp stop [of msg] pr q by simp
      next
        case Some2: (Some e2)
        show ?thesis
          using B [of ?q e2 p2] Some2 Some e rp stop [of msg] pr q by simp
      qed
    qed
  qed
  note shape = this
  have c1: "\<forall>msg p2. r1 = Some (StopPipelineException msg) \<and>
        run_post_execution_steps (log_info (StoppingPipelineEarly msg) p1) = (None, p2)
        \<longrightarrow> execute p = (None, p2)"
    by (auto simp: stop)
  have c2: "\<forall>p2. r1 = None \<and> run_post_execution_steps p1 = (None, p2) \<longrightarrow> execute p = (None, p2)"
    by (auto simp: normal)
  have c3: "(r1 = None \<or> (\<exists>msg. r1 = Some (StopPipelineException msg))) \<longrightarrow>
        phase_runs PostExecution (logged (snd (execute p))) =
          Suc (phase_runs PostExecution (logged p))"
  proof (cases rule: shape)
    case (A q p2)
    then show ?thesis using post [of q None p2 PostExecution] by simp
  next
    case (B q e p2)
    then show ?thesis
      using post [of q "Some e" p2 PostExecution] hu [of PostExecution e p2] by simp
  next
    case (C e)
    then show ?thesis by (cases e) auto
  qed
  have c4: "fst (execute p) = None \<longrightarrow>
        phase_runs ErrorHandling (logged (snd (execute p))) = phase_runs ErrorHandling (logged p)"
  proof (cases rule: shape)
    case (A q p2)
    then show ?thesis using post [of q None p2 ErrorHandling] by simp
  next
    case (B q e p2)
    then show ?thesis using hn [of e p2] by auto
  next
    case (C e)
    then show ?thesis using hn [of e p1] by auto
  qed
  have c5: "\<forall>e. r1 = Some e \<and> \<not> is_stop_pipeline e \<longrightarrow> execute p = handle_unexpected e p1"
    using other by blast
  have c6: "\<forall>e p2. r1 = None \<and> run_post_execution_steps p1 = (Some e, p2)
        \<longrightarrow> execute p = handle_unexpected e p2"
    by (auto simp: normal)
  have c7: "\<forall>msg e p2. r1 = Some (StopPipelineException msg) \<and>
        run_post_execution_steps (log_info (StoppingPipelineEarly msg) p1) = (Some e, p2)
        \<longrightarrow> execute p = handle_unexpected e p2"
    by (auto simp: stop)
  have c8: "fst (execute p) \<noteq> None \<longrightarrow>
        phase_runs ErrorHandling (logged (snd (execute p))) =
          Suc (phase_runs ErrorHandling (logged p))"
  proof (cases rule: shape)
    case (A q p2)
    then show ?thesis by simp
  next
    case (B q e p2)
    then show ?thesis
      using post [of q "Some e" p2 ErrorHandling] hu [of ErrorHandling e p2] by simp
  next
    case (C e)
    then show ?thesis using hu [of ErrorHandling e p1] pr [of ErrorHandling] by simp
  qed
  have c9: "\<forall>e q q'. run_error_handling (log_info (UnexpectedError e) q) = (None, q')
        \<longrightarrow> handle_unexpected e q = (Some e, q')"
    by (simp add: handle_unexpected_def)
  have c10: "\<forall>e e' q q'. run_error_handling (log_info (UnexpectedError e) q) = (Some e', q')
        \<longrightarrow> handle_unexpected e q = (Some e', q')"
    by (simp add: handle_unexpected_def)
  from c1 c2 c3 c4 c5 c6 c7 c8 c9 c10 show ?thesis
    by blast
qed


lemmas engine_eval =
  execute_def pre_execution_and_payloads_def handle_unexpected_def run_pre_execution_steps_def
  run_post_execution_steps_def run_error_handling_def run_phase_def run_all_payloads_def
  run_payload_def log_info_def phase_runs_def

theorem execute_contract_witness:
  "fst (execute (example_pipeline (Some (StopPipelineException ''no updates'')) None)) = None
   \<and> env (snd (execute (example_pipeline (Some (StopPipelineException ''no updates'')) None)))
        = [''pre'', ''post'']
   \<and> fst (execute (example_pipeline None None)) = None
   \<and> env (snd (execute (example_pipeline None None))) = [''pre'', ''post'']
   \<and> fst (execute (example_pipeline (Some APIErrorException) None)) = Some APIErrorException
   \<and> env (snd (execute (example_pipeline (Some APIErrorException) None))) = [''pre'', ''handler'']
   \<and> phase_runs ErrorHandling
        (logged (snd (execute (example_pipeline (Some APIErrorException) None)))) = 1"
proof -
  let ?stop = "example_pipeline (Some (StopPipelineException ''no updates'')) None"
  let ?ok = "example_pipeline None None"
  let ?bad = "example_pipeline (Some APIErrorException) None"
  have a: "execute ?stop = run_post_execution_steps
      (log_info (StoppingPipelineEarly ''no updates'') (snd (pre_execution_and_payloads ?stop)))"
    using execute_contract [of ?stop "Some (StopPipelineException ''no updates'')"
        "snd (pre_execution_and_payloads ?stop)"]
    by (simp add: engine_eval example_pipeline_def)
  have b: "execute ?ok = run_post_execution_steps (snd (pre_execution_and_payloads ?ok))"
    using execute_contract [of ?ok None "snd (pre_execution_and_payloads ?ok)"]
    by (simp add: engine_eval example_pipeline_def)
  have c: "execute ?bad = handle_unexpected APIErrorException (snd (pre_execution_and_payloads ?bad))
      \<and> phase_runs ErrorHandling (logged (snd (execute ?bad))) = Suc (phase_runs ErrorHandling (logged ?bad))"
    using execute_contract [of ?bad "Some APIErrorException"
        "snd (pre_execution_and_payloads ?bad)"]
    by (simp add: engine_eval example_pipeline_def)
  show ?thesis
    unfolding a b
    using c
    by (simp add: engine_eval example_pipeline_def)
qed

text \<open>
  Claim C8, as amended. With an empty payload list \<open>run_all_payloads\<close> returns normally
  and only writes one log line. With a list \<open>q\<close>, whenever it stops the queue is a
  payload followed by payloads of \<open>q\<close> no step has touched (a suffix of \<open>q\<close>): only the
  head of the queue can be a processed payload. When it returns normally the queue is
  empty, the queue lengths logged run from the length of \<open>q\<close> down to 1 (each payload is
  deleted before the next is taken up), and the environment is the one obtained by
  running the payloads of \<open>q\<close> one after the other, in order.
\<close>

theorem run_all_payloads_one_at_a_time:
  "(payloads p = Some [] \<longrightarrow> run_all_payloads p = (None, log_info NoPayloads p))
   \<and> (\<forall>q. payloads p = Some q \<longrightarrow>
        (\<exists>q'. payloads (snd (run_all_payloads p)) = Some q' \<and> suffix (tl q') q \<and>
           (fst (run_all_payloads p) = None \<longrightarrow>
              q' = [] \<and>
              queue_lengths (logged (snd (run_all_payloads p))) =
                queue_lengths (logged p) @ rev [1..<Suc (length q)] \<and>
              env (snd (run_all_payloads p)) =
                foldl (\<lambda>s x. env (snd (snd (run_payload (p\<lparr>env := s\<rparr>) x)))) (env p) q)))"
proof (intro conjI allI impI)
  assume "payloads p = Some []"
  then show "run_all_payloads p = (None, log_info NoPayloads p)"
    by (simp add: run_all_payloads_def)
next
  fix q
  assume q: "payloads p = Some q"
  show "\<exists>q'. payloads (snd (run_all_payloads p)) = Some q' \<and> suffix (tl q') q \<and>
           (fst (run_all_payloads p) = None \<longrightarrow>
              q' = [] \<and>
              queue_lengths (logged (snd (run_all_payloads p))) =
                queue_lengths (logged p) @ rev [1..<Suc (length q)] \<and>
              env (snd (run_all_payloads p)) =
                foldl (\<lambda>s x. env (snd (snd (run_payload (p\<lparr>env := s\<rparr>) x)))) (env p) q)"
  proof (cases q)
    case Nil
    with q show ?thesis
      by (simp add: run_all_payloads_def log_info_def queue_lengths_append)
  next
    case (Cons x xs)
    obtain r p' where rq: "run_payload_queue q p = (r, p')"
      by (cases "run_payload_queue q p")
    from run_payload_queue_payloads [of q p] rq obtain q' where
      q': "payloads p' = Some q'" "suffix (tl q') q" "r = None \<longrightarrow> q' = []"
      by auto
    have res: "run_all_payloads p =
        (case r of Some e \<Rightarrow> (Some e, p') | None \<Rightarrow> (None, log_info ProcessedAllPayloads p'))"
      using q Cons rq by (simp add: run_all_payloads_def split: option.splits)
    show ?thesis
    proof (cases r)
      case (Some e)
      with res q' show ?thesis by simp
    next
      case None
      have "queue_lengths (logged p') = queue_lengths (logged p) @ rev [1..<Suc (length q)]"
        using run_payload_queue_lengths [of q p] rq None by simp
      moreover have "env p' =
          foldl (\<lambda>s x. env (snd (snd (run_payload (p\<lparr>env := s\<rparr>) x)))) (env p) q"
        using run_payload_queue_env [of q p] rq None by simp
      ultimately show ?thesis
        using None res q' by (simp add: log_info_def queue_lengths_append)
    qed
  qed
qed

theorem run_all_payloads_one_at_a_time_witness:
  "payloads (example_queue None) = Some [7, 8, 9]
   \<and> fst (run_all_payloads (example_queue None)) = None
   \<and> payloads (snd (run_all_payloads (example_queue None))) = Some []
   \<and> queue_lengths (logged (snd (run_all_payloads (example_queue None)))) = [3, 2, 1]
   \<and> env (snd (run_all_payloads (example_queue None))) = [7, 8, 9]"
proof -
  have q: "payloads (example_queue None) = Some [7, 8, 9]"
    by (simp add: example_queue_def)
  have ok: "fst (run_all_payloads (example_queue None)) = None"
    by (simp add: engine_eval example_queue_def)
  from run_all_payloads_one_at_a_time [of "example_queue None"] q ok show ?thesis
    by (simp add: engine_eval example_queue_def)
qed

text \<open>
  Claim C8 states that at most one unit is resident at any time. With three payloads
  queued and a step that raises on the first one, the queue still holds all three: the
  payload objects are all created before the loop starts, and the loop frees processed
  payloads only.
\<close>

theorem run_all_payloads_resident_counterexample:
  "fst (run_all_payloads (example_queue (Some (KeyError ''id'')))) = Some (KeyError ''id'')
   \<and> payloads (snd (run_all_payloads (example_queue (Some (KeyError ''id''))))) = Some [107, 8, 9]
   \<and> logged (snd (run_all_payloads (example_queue (Some (KeyError ''id''))))) =
       [PayloadsToProcess 3, StartingPipelineStep ''Record'']"
  by (simp add: engine_eval example_queue_def)

section \<open>Properties of the API client\<close>






lemma request_until_ok_returns_aux:
  "nat (retries + 1 - failed_attempts) = k \<Longrightarrow>
   request_until_ok req retries backoff failed_attempts r = (Inr (resp, f), r') \<Longrightarrow>
   resp = answers r (served r' - 1) req \<and> status resp = Some ''200 OK'' \<and>
   served r < served r' \<and> answers r' = answers r \<and> api_token r' = api_token r \<and>
   failed_attempts \<le> f \<and> f \<le> retries"
proof (induction k arbitrary: failed_attempts r)
  case 0
  then have "\<not> failed_attempts \<le> retries" by simp
  with "0.prems"(2) show ?case
    by (subst (asm) request_until_ok.simps) simp
next
  case (Suc k)
  then have le: "failed_attempts \<le> retries" by simp
  let ?resp = "answers r (served r) req"
  let ?r1 = "r\<lparr>served := Suc (served r), calls := calls r @ [HttpRequest req]\<rparr>"
  let ?r2 = "?r1\<lparr>calls := calls ?r1 @ [Sleep backoff]\<rparr>"
  have unfold: "request_until_ok req retries backoff failed_attempts r =
      (case status ?resp of
         None \<Rightarrow> (Inl (KeyError ''Status''), ?r1)
       | Some st \<Rightarrow>
           if st = ''200 OK'' then (Inr (?resp, failed_attempts), ?r1)
           else if backoff < 0 then (Inl (ValueError ''sleep length must be non-negative''), ?r1)
           else request_until_ok req retries backoff (failed_attempts + 1) ?r2)"
    using le by (subst request_until_ok.simps) (simp add: send_def sleep_def split: option.splits)
  show ?case
  proof (cases "status ?resp = Some ''200 OK''")
    case True
    with Suc.prems(2) le show ?thesis
      unfolding unfold by auto
  next
    case False
    with Suc.prems(2) have rec:
      "request_until_ok req retries backoff (failed_attempts + 1) ?r2 = (Inr (resp, f), r')"
      unfolding unfold by (auto split: option.splits if_splits)
    have "nat (retries + 1 - (failed_attempts + 1)) = k"
      using Suc.prems(1) by simp
    from Suc.IH [OF this rec] show ?thesis by auto
  qed
qed

lemmas request_until_ok_returns = request_until_ok_returns_aux [OF refl]

lemmas api_eval =
  get_conversation_max_updated_timestamp_def
  get_conversation_ids_last_updated_between_timestamps_def get_conversation_details_def
  request_until_ok.simps fetch_pages.simps send_def sleep_def

lemma fetch_pages_unfold:
  assumes "failed_attempts \<le> retries"
  shows "fetch_pages token start until retries backoff failed_attempts
           current_page conversation_ids r =
    (let req = page_request token start until current_page;
         resp = answers r (served r) req;
         r1 = r\<lparr>served := Suc (served r), calls := calls r @ [HttpRequest req]\<rparr>
     in case status resp of
          None \<Rightarrow> (Inl (KeyError ''Status''), r1)
        | Some st \<Rightarrow>
            if st = ''200 OK'' then
              (case body resp of
                 Document j \<Rightarrow> (Inl (key_error j ''conversations''), r1)
               | SearchResult total_pages conversations \<Rightarrow>
                   if current_page > 1 then
                     fetch_pages token start until retries backoff
                       failed_attempts (current_page - 1)
                       (conversation_ids @ map conv_id (counted resp)) r1
                   else (Inr (conversation_ids @ map conv_id (counted resp)), r1))
            else if backoff < 0 then
              (Inl (ValueError ''sleep length must be non-negative''), r1)
            else
              fetch_pages token start until retries backoff
                (failed_attempts + 1) current_page conversation_ids
                (r1\<lparr>calls := calls r1 @ [Sleep backoff]\<rparr>))"
  using assms
  by (subst fetch_pages.simps)
     (simp add: send_def sleep_def page_request_def counted_def Let_def
        split: option.splits body.splits)

lemma fetch_pages_ids_aux:
  "nat (retries + 1 - failed_attempts) + nat current_page = m \<Longrightarrow>
   fetch_pages token start until retries backoff failed_attempts
     current_page acc r = (Inr ids, r') \<Longrightarrow>
   served r \<le> served r' \<and> answers r' = answers r \<and>
   (\<forall>i\<in>set ids. i \<in> set acc \<or>
      (\<exists>n req. served r \<le> n \<and> n < served r' \<and>
         status (answers r n req) = Some ''200 OK'' \<and>
         i \<in> conv_id ` set (counted (answers r n req))))"
proof (induction m arbitrary: failed_attempts current_page acc r)
  case 0
  then have "\<not> failed_attempts \<le> retries" by simp
  with "0.prems"(2) show ?case
    by (subst (asm) fetch_pages.simps) simp
next
  case (Suc m)
  show ?case
  proof (cases "failed_attempts \<le> retries")
    case False
    with Suc.prems(2) show ?thesis
      by (subst (asm) fetch_pages.simps) simp
  next
    case le: True
    let ?req = "page_request token start until current_page"
    let ?resp = "answers r (served r) ?req"
    let ?r1 = "r\<lparr>served := Suc (served r), calls := calls r @ [HttpRequest ?req]\<rparr>"
    let ?r2 = "?r1\<lparr>calls := calls ?r1 @ [Sleep backoff]\<rparr>"
    note u = fetch_pages_unfold [OF le, of token start until backoff
        current_page acc r]
    show ?thesis
    proof (cases "status ?resp = Some ''200 OK''")
      case False
      with Suc.prems(2) have rec:
        "fetch_pages token start until retries backoff (failed_attempts + 1)
           current_page acc ?r2 = (Inr ids, r')"
        unfolding u by (auto simp: Let_def split: option.splits if_splits)
      have "nat (retries + 1 - (failed_attempts + 1)) + nat current_page = m"
        using Suc.prems(1) le by simp
      from Suc.IH [OF this rec] show ?thesis
        by (auto intro: Suc_leD)
    next
      case ok: True
      show ?thesis
      proof (cases "current_page > 1")
        case False
        with Suc.prems(2) ok have "ids = acc @ map conv_id (counted ?resp)" "r' = ?r1"
          unfolding u by (auto simp: Let_def split: body.splits)
        with ok show ?thesis by auto
      next
        case True
        with Suc.prems(2) ok have rec:
          "fetch_pages token start until retries backoff failed_attempts
             (current_page - 1) (acc @ map conv_id (counted ?resp)) ?r1 = (Inr ids, r')"
          unfolding u by (auto simp: Let_def split: body.splits)
        have "nat (retries + 1 - failed_attempts) + nat (current_page - 1) = m"
          using Suc.prems(1) True by simp
        from Suc.IH [OF this rec]
        have ih: "Suc (served r) \<le> served r'" "answers r' = answers r"
          "\<forall>i\<in>set ids. i \<in> set (acc @ map conv_id (counted ?resp)) \<or>
            (\<exists>n req. Suc (served r) \<le> n \<and> n < served r' \<and>
               status (answers r n req) = Some ''200 OK'' \<and>
               i \<in> conv_id ` set (counted (answers r n req)))"
          by auto
        show ?thesis
        proof (intro conjI ballI)
          show "served r \<le> served r'" using ih(1) by simp
          show "answers r' = answers r" by (rule ih(2))
          fix i assume "i \<in> set ids"
          with ih(3) consider "i \<in> set acc" | "i \<in> conv_id ` set (counted ?resp)"
            | n req where "Suc (served r) \<le> n" "n < served r'"
                "status (answers r n req) = Some ''200 OK''"
                "i \<in> conv_id ` set (counted (answers r n req))"
            by auto
          then show "i \<in> set acc \<or>
            (\<exists>n req. served r \<le> n \<and> n < served r' \<and>
               status (answers r n req) = Some ''200 OK'' \<and>
               i \<in> conv_id ` set (counted (answers r n req)))"
          proof cases
            case 1
            then show ?thesis by simp
          next
            case 2
            with ok ih(1) show ?thesis
              by (intro disjI2 exI [of _ "served r"] exI [of _ ?req]) auto
          next
            case 3
            then show ?thesis
              by (intro disjI2 exI [of _ n] exI [of _ req]) auto
          qed
        qed
      qed
    qed
  qed
qed

text \<open>
  Claim C10. The maximum returned by the max-change-time query is taken over the
  conversations of the answer whose source type is \<open>conversation\<close> and is \<open>None\<close> when
  the answer holds none of them; every identifier the paginated search returns is the
  identifier of a conversation of that source type in one of the answers it received.
\<close>

theorem only_conversation_sources_counted:
  assumes "api_token r = Some token"
  shows
    "(get_conversation_max_updated_timestamp start retries backoff r = (Inr res, r') \<longrightarrow>
       (\<exists>total_pages cs.
          body (answers r (served r' - 1)
                  (Post search_url token (max_updated_payload start)))
            = SearchResult total_pages cs \<and>
          res = (if \<exists>c\<in>set cs. source_type c = ''conversation''
                 then Some (Max {updated_at c |c. c \<in> set cs \<and> source_type c = ''conversation''})
                 else None)))
     \<and> (get_conversation_ids_last_updated_between_timestamps start until
           retries backoff r = (Inr ids, r'') \<longrightarrow>
         (\<forall>i\<in>set ids. \<exists>n req total_pages cs c.
            served r \<le> n \<and> n < served r'' \<and>
            body (answers r n req) = SearchResult total_pages cs \<and>
            c \<in> set cs \<and> source_type c = ''conversation'' \<and> conv_id c = i))"
proof (intro conjI impI)
  let ?req = "Post search_url token (max_updated_payload start)"
  assume a: "get_conversation_max_updated_timestamp start retries backoff r = (Inr res, r')"
  then obtain resp f r1 where
    loop: "request_until_ok ?req retries backoff 0 r = (Inr (resp, f), r1)"
    using assms
    by (auto simp: get_conversation_max_updated_timestamp_def split: prod.splits sum.splits)
  from a loop assms obtain total_pages cs where
    b: "body resp = SearchResult total_pages cs" and r1: "r1 = r'"
    and res: "res = (if filter (\<lambda>conv. source_type conv = ''conversation'') cs \<noteq> []
               then Some (Max (set (map updated_at
                      (filter (\<lambda>conv. source_type conv = ''conversation'') cs))))
               else None)"
    by (auto simp: get_conversation_max_updated_timestamp_def Let_def split: body.splits)
  from request_until_ok_returns [OF loop] r1
  have resp: "resp = answers r (served r' - 1) ?req" by simp
  have set_eq: "set (map updated_at (filter (\<lambda>conv. source_type conv = ''conversation'') cs))
      = {updated_at c |c. c \<in> set cs \<and> source_type c = ''conversation''}"
    by auto
  have ex_eq: "(filter (\<lambda>conv. source_type conv = ''conversation'') cs \<noteq> [])
      = (\<exists>c\<in>set cs. source_type c = ''conversation'')"
    by (auto simp: filter_empty_conv)
  show "\<exists>total_pages cs.
          body (answers r (served r' - 1) ?req) = SearchResult total_pages cs \<and>
          res = (if \<exists>c\<in>set cs. source_type c = ''conversation''
                 then Some (Max {updated_at c |c. c \<in> set cs \<and> source_type c = ''conversation''})
                 else None)"
    using b res resp unfolding set_eq ex_eq by blast
next
  let ?req = "Post search_url token (get_payload start until 1)"
  assume a: "get_conversation_ids_last_updated_between_timestamps start until
           retries backoff r = (Inr ids, r'')"
  then obtain resp f r1 where
    loop: "request_until_ok ?req retries backoff 0 r = (Inr (resp, f), r1)"
    using assms
    by (auto simp: get_conversation_ids_last_updated_between_timestamps_def
          split: prod.splits sum.splits)
  from a loop assms obtain total_pages cs where
    b: "body resp = SearchResult total_pages cs"
    and fp: "fetch_pages token start until retries backoff f total_pages [] r1
               = (Inr ids, r'')"
    by (auto simp: get_conversation_ids_last_updated_between_timestamps_def split: body.splits)
  from request_until_ok_returns [OF loop]
  have r1: "served r < served r1" "answers r1 = answers r" by auto
  from fetch_pages_ids_aux [OF refl fp] r1
  have ids: "\<forall>i\<in>set ids. \<exists>n req. served r1 \<le> n \<and> n < served r'' \<and>
         i \<in> conv_id ` set (counted (answers r n req))"
    by fastforce
  show "\<forall>i\<in>set ids. \<exists>n req total_pages cs c.
            served r \<le> n \<and> n < served r'' \<and>
            body (answers r n req) = SearchResult total_pages cs \<and>
            c \<in> set cs \<and> source_type c = ''conversation'' \<and> conv_id c = i"
  proof
    fix i assume "i \<in> set ids"
    with ids obtain n req where n: "served r1 \<le> n" "n < served r''"
      and i: "i \<in> conv_id ` set (counted (answers r n req))" by blast
    from i obtain c where c: "c \<in> set (counted (answers r n req))" "conv_id c = i" by auto
    from c(1) obtain tp cs where "body (answers r n req) = SearchResult tp cs"
      "c \<in> set cs" "source_type c = ''conversation''"
      by (cases "body (answers r n req)") (auto simp: counted_def)
    with n r1(1) c(2) show "\<exists>n req total_pages cs c.
            served r \<le> n \<and> n < served r'' \<and>
            body (answers r n req) = SearchResult total_pages cs \<and>
            c \<in> set cs \<and> source_type c = ''conversation'' \<and> conv_id c = i"
      by (intro exI [of _ n] exI [of _ req] exI [of _ tp] exI [of _ cs] exI [of _ c]) auto
  qed
qed

lemma map_upt_Suc_shift: "map f [0..<Suc n] = f 0 # map (\<lambda>j. f (Suc j)) [0..<n]"
proof -
  have "[0..<Suc n] = 0 # map Suc [0..<n]"
    by (simp add: upt_conv_Cons map_Suc_upt del: upt_Suc)
  then show ?thesis by (simp add: comp_def del: upt_Suc)
qed

lemma fetch_pages_descending_aux:
  "nat p = Suc k \<Longrightarrow> failed_attempts \<le> retries \<Longrightarrow>
   \<forall>n req. served r \<le> n \<longrightarrow> answers_page (answers r n req) \<Longrightarrow>
   fetch_pages token start until retries backoff failed_attempts p acc r =
     (Inr (acc @ concat (map (\<lambda>j. map conv_id (counted (answers r (served r + j)
               (page_request token start until (p - int j))))) [0..<Suc k])),
      r\<lparr>served := served r + Suc k,
        calls := calls r @ map (\<lambda>j. HttpRequest
               (page_request token start until (p - int j))) [0..<Suc k]\<rparr>)"
proof (induction k arbitrary: p acc r)
  case 0
  let ?req = "page_request token start until p"
  from "0.prems"(3) have ok: "answers_page (answers r (served r) ?req)" by simp
  from "0.prems"(1) have p: "\<not> p > 1" by simp
  show ?case
    using ok p
    unfolding fetch_pages_unfold [OF "0.prems"(2), of token start until backoff p acc r]
    by (auto simp: answers_page_def Let_def split: body.splits)
next
  case (Suc k)
  let ?req = "page_request token start until p"
  let ?resp = "answers r (served r) ?req"
  let ?r1 = "r\<lparr>served := Suc (served r), calls := calls r @ [HttpRequest ?req]\<rparr>"
  from Suc.prems(3) have ok: "answers_page ?resp" by simp
  from Suc.prems(1) have p: "p > 1" "nat (p - 1) = Suc k" by simp_all
  have step: "fetch_pages token start until retries backoff failed_attempts p acc r =
      fetch_pages token start until retries backoff failed_attempts (p - 1)
        (acc @ map conv_id (counted ?resp)) ?r1"
    using ok p(1)
    unfolding fetch_pages_unfold [OF Suc.prems(2), of token start until backoff p acc r]
    by (auto simp: answers_page_def Let_def split: body.splits)
  have all: "\<forall>n req. served ?r1 \<le> n \<longrightarrow> answers_page (answers ?r1 n req)"
    using Suc.prems(3) by simp
  have shift: "p - 1 - int j = p - int (Suc j)" for j by simp
  show ?case
    unfolding step Suc.IH [OF p(2) Suc.prems(2) all]
    by (subst (3 4) map_upt_Suc_shift) (simp add: shift del: upt_Suc)
qed

theorem only_conversation_sources_counted_witness:
  "fst (get_conversation_max_updated_timestamp 100 5 5 (mixed_remote sample_conversations))
     = Inr (Some 120)
   \<and> fst (get_conversation_max_updated_timestamp 100 5 5
          (mixed_remote [\<lparr>conv_id = ''b'', updated_at = 140, source_type = ''email''\<rparr>]))
     = Inr None
   \<and> fst (get_conversation_ids_last_updated_between_timestamps 100 120 5 5
          (mixed_remote sample_conversations)) = Inr [''a'', ''c'']"
proof -
  let ?r = "mixed_remote sample_conversations"
  have t: "api_token ?r = Some ''token''" by (simp add: mixed_remote_def)
  have m: "get_conversation_max_updated_timestamp 100 5 5 ?r =
      (Inr (Some 120), snd (get_conversation_max_updated_timestamp 100 5 5 ?r))"
    by (simp add: api_eval mixed_remote_def sample_conversations_def)
  have i: "get_conversation_ids_last_updated_between_timestamps 100 120 5 5 ?r =
      (Inr [''a'', ''c''], snd (get_conversation_ids_last_updated_between_timestamps 100 120 5 5 ?r))"
    by (simp add: api_eval mixed_remote_def sample_conversations_def)
  from only_conversation_sources_counted [OF t, of 100 5 5 "Some 120" _ 120 "[''a'', ''c'']"] m i
  show ?thesis
    by (simp add: api_eval mixed_remote_def sample_conversations_def)
qed

text \<open>
  The filter of the paginated search selects the window \<open>(start, end]\<close>, and with every
  answer a successful page and \<open>total_pages \<ge> 1\<close> the pages are fetched from \<open>total_pages\<close>
  down to 1 and their identifier lists concatenated in that order.
\<close>

lemma search_window:
  "selects (query (get_payload start until page)) c
     \<longleftrightarrow> start < updated_at c \<and> updated_at c \<le> until"
  by (auto simp: get_payload_def)

lemma paginated_search_descending:
  assumes "0 \<le> retries" and "api_token r = Some token"
    and "\<forall>n req. served r \<le> n \<longrightarrow> answers_page (answers r n req)"
    and "body (answers r (served r) (page_request token start until 1))
           = SearchResult total_pages cs"
    and "1 \<le> total_pages"
  shows "get_conversation_ids_last_updated_between_timestamps start until
           retries backoff r =
     (Inr (concat (map (\<lambda>j. map conv_id (counted (answers r (served r + 1 + j)
               (page_request token start until (total_pages - int j)))))
             [0..<nat total_pages])),
      r\<lparr>served := served r + 1 + nat total_pages,
        calls := calls r @
          HttpRequest (page_request token start until 1) #
          map (\<lambda>j. HttpRequest
               (page_request token start until (total_pages - int j)))
            [0..<nat total_pages]\<rparr>)"
proof -
  let ?req = "page_request token start until 1"
  let ?resp = "answers r (served r) ?req"
  let ?r1 = "r\<lparr>served := Suc (served r), calls := calls r @ [HttpRequest ?req]\<rparr>"
  from assms(3) have ok: "status ?resp = Some ''200 OK''"
    by (simp add: answers_page_def)
  have loop: "request_until_ok ?req retries backoff 0 r = (Inr (?resp, 0), ?r1)"
    using assms(1) ok by (subst request_until_ok.simps) (simp add: send_def)
  obtain k where k: "nat total_pages = Suc k"
    using assms(5) by (cases "nat total_pages") auto
  have all: "\<forall>n req. served ?r1 \<le> n \<longrightarrow> answers_page (answers ?r1 n req)"
    using assms(3) by simp
  note fp = fetch_pages_descending_aux [OF k assms(1) all, of token start
      until backoff "[]"]
  show ?thesis
    using loop
    by (simp add: get_conversation_ids_last_updated_between_timestamps_def assms(2,4)
          page_request_def [symmetric] fp k del: upt_Suc)
qed

text \<open>
  Claim C4 at a search whose first answer advertises no page at all: the code asks for
  page 1 and then for page 0.
\<close>

theorem paginated_search_requests_page_zero:
  "calls (snd (get_conversation_ids_last_updated_between_timestamps 100 150 5 5
            empty_window_remote)) =
     [HttpRequest (Post search_url ''token'' (get_payload 100 150 1)),
      HttpRequest (Post search_url ''token'' (get_payload 100 150 0))]"
  by (simp add: api_eval empty_window_remote_def)

section \<open>Properties of the database operations\<close>

text \<open>
  Claim C9. With a row-set of no rows, \<open>load_dataframe_to_table\<close> and
  \<open>merge_dataframe_into_table\<close> return normally and leave the database as it was: no
  statement is issued, no table is changed.
\<close>

theorem empty_frame_is_no_op:
  assumes "length (records df) = 0"
  shows "load_dataframe_to_table schema_name table df db = (None, db)
       \<and> merge_dataframe_into_table schema' table' df db = (None, db)"
  using assms by (simp add: load_dataframe_to_table_def merge_dataframe_into_table_def)

theorem empty_frame_is_no_op_witness:
  "length (records (parts_frame [])) = 0
   \<and> load_dataframe_to_table (Some ''intercom'') ''conversation_parts'' (parts_frame [])
        (parts_database [] []) = (None, parts_database [] [])
   \<and> merge_dataframe_into_table ''intercom'' ''conversation_parts'' (parts_frame [])
        (parts_database [] []) = (None, parts_database [] [])"
proof -
  have "length (records (parts_frame [])) = 0" by (simp add: parts_frame_def)
  from empty_frame_is_no_op [OF this] this show ?thesis by blast
qed

text \<open>
  Claim C3, as amended. When the catalogue lists no primary-key constraint for the table,
  or more than one, and the row-set has a row, \<open>merge_dataframe_into_table\<close> raises at
  the key lookup: the only statement issued is the catalogue query, so no staging table
  is created, no row is written, no merge is executed and every table is as before.
\<close>

theorem merge_without_single_key_raises_first:
  assumes "length (primary_key_names schema_name table db) \<noteq> 1"
    and "records df \<noteq> []"
  shows "fst (merge_dataframe_into_table schema_name table df db) \<noteq> None
       \<and> snd (merge_dataframe_into_table schema_name table df db)
           = db\<lparr>statements := statements db @ [Select_primary_key schema_name table]\<rparr>"
proof -
  have names: "primary_key_names schema_name table (issue (Select_primary_key schema_name table) db)
      = primary_key_names schema_name table db"
    by (simp add: primary_key_names_def issue_def)
  have "\<exists>e. get_primary_key_name schema_name table db =
      (Inl e, issue (Select_primary_key schema_name table) db)"
  proof (cases "primary_key_names schema_name table db")
    case Nil
    then show ?thesis by (simp add: get_primary_key_name_def names Let_def)
  next
    case (Cons n ns)
    with assms(1) obtain m ms where "ns = m # ms" by (cases ns) auto
    with Cons show ?thesis by (simp add: get_primary_key_name_def names Let_def)
  qed
  then show ?thesis
    using assms(2) by (auto simp: merge_dataframe_into_table_def issue_def)
qed

theorem merge_without_single_key_raises_first_witness:
  "length (primary_key_names ''intercom'' ''conversation_parts'' (parts_database [] [])) \<noteq> 1
   \<and> records (parts_frame [[JStr ''c1'', JStr ''p1'', JStr ''hello'']]) \<noteq> []
   \<and> fst (merge_dataframe_into_table ''intercom'' ''conversation_parts''
          (parts_frame [[JStr ''c1'', JStr ''p1'', JStr ''hello'']]) (parts_database [] [])) \<noteq> None
   \<and> statements (snd (merge_dataframe_into_table ''intercom'' ''conversation_parts''
          (parts_frame [[JStr ''c1'', JStr ''p1'', JStr ''hello'']]) (parts_database [] [])))
       = [Select_primary_key ''intercom'' ''conversation_parts'']
   \<and> length (primary_key_names ''intercom'' ''conversation_parts''
         (parts_database [parts_pkey ''k1'', parts_pkey ''k2''] [])) \<noteq> 1
   \<and> fst (merge_dataframe_into_table ''intercom'' ''conversation_parts''
          (parts_frame [[JStr ''c1'', JStr ''p1'', JStr ''hello'']])
          (parts_database [parts_pkey ''k1'', parts_pkey ''k2''] [])) \<noteq> None"
proof -
  let ?df = "parts_frame [[JStr ''c1'', JStr ''p1'', JStr ''hello'']]"
  have a: "length (primary_key_names ''intercom'' ''conversation_parts'' (parts_database [] [])) \<noteq> 1"
    by (simp add: primary_key_names_def parts_database_def)
  have b: "length (primary_key_names ''intercom'' ''conversation_parts''
         (parts_database [parts_pkey ''k1'', parts_pkey ''k2''] [])) \<noteq> 1"
    by (simp add: primary_key_names_def parts_database_def parts_pkey_def)
  have c: "records ?df \<noteq> []" by (simp add: parts_frame_def)
  from merge_without_single_key_raises_first [OF a c]
       merge_without_single_key_raises_first [OF b c] a b c
  show ?thesis by (simp add: parts_database_def)
qed

text \<open>
  Claim C3 states the failure for every row-set. With a row-set of no rows the function
  returns before it looks the key up, also on a table without a primary key.
\<close>

theorem merge_empty_frame_without_key_counterexample:
  "primary_key_names ''intercom'' ''conversation_parts'' (parts_database [] []) = []
   \<and> fst (merge_dataframe_into_table ''intercom'' ''conversation_parts'' (parts_frame [])
          (parts_database [] [])) = None"
  by (simp add: primary_key_names_def parts_database_def merge_dataframe_into_table_def
        parts_frame_def)

text \<open>
  What the key lookup raises in that case is not the \<open>MissingPrimaryKeyException\<close>
  the code names: instantiating the class without its message fails first.
\<close>

lemma merge_without_key_raises_type_error:
  "fst (merge_dataframe_into_table ''intercom'' ''conversation_parts''
          (parts_frame [[JStr ''c1'', JStr ''p1'', JStr ''hello'']]) (parts_database [] []))
     = Some (TypeError ''MissingPrimaryKeyException.__init__() missing msg'')"
  by (simp add: merge_dataframe_into_table_def get_primary_key_name_def primary_key_names_def
        parts_database_def parts_frame_def issue_def)






lemma length_filter_suffix: "length (filter P ys) \<le> length (filter P (xs @ ys))"
  by simp


lemma same_catalogue_refl: "same_catalogue db db"
  by (simp add: same_catalogue_def)

lemma same_catalogue_issue: "same_catalogue db (issue stmt db)"
  by (simp add: same_catalogue_def issue_def)

lemma same_catalogue_trans:
  "same_catalogue a b \<Longrightarrow> same_catalogue b c \<Longrightarrow> same_catalogue a c"
  by (simp add: same_catalogue_def)

lemma tables_issue: "tables (issue stmt db) = tables db"
  by (simp add: issue_def)






lemma tmp_name_differs: "(''pg_temp'', ''tmp_'' @ table) \<noteq> (schema_name, table)"
  by simp










lemmas database_eval =
  merge_dataframe_into_table_def load_dataframe_to_table_def get_primary_key_name_def
  primary_key_names_def get_key_columns_def create_temporary_table_like_def
  copy_from_stdin_def merge_into_def truncate_table_def merged_rows_def joined_def
  update_set_def insert_values_def violates_def key_of_def row_of_def issue_def Let_def
  becomes_na_def




section \<open>Properties of the conversation pipeline\<close>

lemma max_query_without_conversations:
  assumes "api_token r = Some token"
    and "status (answers r (served r) (Post search_url token (max_updated_payload start)))
           = Some ''200 OK''"
    and "body (answers r (served r) (Post search_url token (max_updated_payload start)))
           = SearchResult total_pages cs"
    and "\<forall>c\<in>set cs. source_type c \<noteq> ''conversation''"
  shows "get_conversation_max_updated_timestamp start 5 5 r =
     (Inr None, r\<lparr>served := Suc (served r),
        calls := calls r @ [HttpRequest (Post search_url token (max_updated_payload start))]\<rparr>)"
proof -
  have "filter (\<lambda>conv. source_type conv = ''conversation'') cs = []"
    using assms(4) by (simp add: filter_empty_conv)
  then show ?thesis
    using assms(1-3)
    by (simp add: get_conversation_max_updated_timestamp_def request_until_ok.simps send_def)
qed

text \<open>
  Claim C6. The connection succeeds, the table of conversations exists, the token is set,
  and the service answers the max-change-time query of the run with a successful page
  that holds no conversation of source type \<open>conversation\<close>. Then the query returns
  \<open>None\<close>; \<open>execute\<close> returns normally; the log shows the early stop followed by
  post-execution; no payload was created or processed; the only statements issued are
  the query for the watermark and the commit, neither of which writes; and the committed
  tables and the watermark are as before.
\<close>

theorem no_new_data_commits_nothing:
  assumes "connect_raises (postgres e) = None"
    and "durable (postgres e) (''intercom'', ''conversations'') = Some t"
    and "api_token (intercom e) = Some token"
    and "status (answers (intercom e) (served (intercom e))
            (Post search_url token (max_updated_payload (watermark (postgres e)))))
           = Some ''200 OK''"
    and "body (answers (intercom e) (served (intercom e))
            (Post search_url token (max_updated_payload (watermark (postgres e)))))
           = SearchResult total_pages cs"
    and "\<forall>c\<in>set cs. source_type c \<noteq> ''conversation''"
  shows "fst (get_conversation_max_updated_timestamp (watermark (postgres e)) 5 5 (intercom e))
           = Inr None
     \<and> fst (execute (IntercomConversationPipeline str_of e)) = None
     \<and> payloads (snd (execute (IntercomConversationPipeline str_of e))) = None
     \<and> logged (snd (execute (IntercomConversationPipeline str_of e))) =
         [StepsToExecute PreExecution 2,
          StartingStep PreExecution ''GetDatabaseConnection'',
          StartingStep PreExecution ''GetPayloads'',
          StoppingPipelineEarly ''No updates to conversations found, stopping pipeline.'',
          StepsToExecute PostExecution 1,
          StartingStep PostExecution ''CommitTransaction'',
          ProcessedAllSteps PostExecution]
     \<and> statements (postgres (env (snd (execute (IntercomConversationPipeline str_of e))))) =
         statements (postgres e) @ [Select_max_updated_at ''intercom'', Commit]
     \<and> filter writes [Select_max_updated_at ''intercom'', Commit] = []
     \<and> durable (postgres (env (snd (execute (IntercomConversationPipeline str_of e)))))
         = without_temporary (durable (postgres e))
     \<and> watermark (postgres (env (snd (execute (IntercomConversationPipeline str_of e)))))
         = watermark (postgres e)"
proof -
  have w: "watermark (postgres e) = max_updated_at (trows t)"
    using assms(2) by (simp add: watermark_def)
  note q = max_query_without_conversations [OF assms(3) assms(4) assms(5) assms(6)]
  have run: "execute (IntercomConversationPipeline str_of e) =
    (None,
     (IntercomConversationPipeline str_of e)
       \<lparr>env := e\<lparr>intercom := (intercom e)\<lparr>served := Suc (served (intercom e)),
                  calls := calls (intercom e) @
                    [HttpRequest (Post search_url token
                       (max_updated_payload (watermark (postgres e))))]\<rparr>,
                postgres := commit (issue (Select_max_updated_at ''intercom'')
                                     ((postgres e)\<lparr>tables := durable (postgres e)\<rparr>)),
                conn := True\<rparr>,
        logged := [StepsToExecute PreExecution 2,
          StartingStep PreExecution ''GetDatabaseConnection'',
          StartingStep PreExecution ''GetPayloads'',
          StoppingPipelineEarly ''No updates to conversations found, stopping pipeline.'',
          StepsToExecute PostExecution 1,
          StartingStep PostExecution ''CommitTransaction'',
          ProcessedAllSteps PostExecution]\<rparr>)"
    using assms(1,2) q
    by (simp add: engine_eval IntercomConversationPipeline_def GetDatabaseConnection_def
          GetPayloads_def CommitTransaction_def connect_def select_max_updated_at_def
          issue_def w Let_def)
  have wm: "watermark (commit (issue (Select_max_updated_at ''intercom'')
                                     ((postgres e)\<lparr>tables := durable (postgres e)\<rparr>)))
      = watermark (postgres e)"
    by (simp add: watermark_def commit_def issue_def without_temporary_def)
  show ?thesis
    unfolding run using q wm
    by (simp add: IntercomConversationPipeline_def commit_def issue_def)
qed

lemma watermark_quiet: "watermark (postgres quiet_env) = 100"
  by (simp add: watermark_def quiet_env_def sample_store_def sample_tables_def
        max_updated_at_def updated_at_values_def stored_conversation_def row_of_def)

theorem no_new_data_commits_nothing_witness:
  "fst (execute (IntercomConversationPipeline blank_str quiet_env)) = None
   \<and> payloads (snd (execute (IntercomConversationPipeline blank_str quiet_env))) = None
   \<and> statements (postgres (env (snd (execute (IntercomConversationPipeline blank_str quiet_env)))))
       = [Select_max_updated_at ''intercom'', Commit]
   \<and> watermark (postgres (env (snd (execute (IntercomConversationPipeline blank_str quiet_env)))))
       = 100"
proof -
  have a: "connect_raises (postgres quiet_env) = None"
    by (simp add: quiet_env_def sample_store_def)
  have b: "durable (postgres quiet_env) (''intercom'', ''conversations'') =
      Some \<lparr>tcols = conversation_columns, not_null = [''id''], pkey = [''id''],
            trows = [stored_conversation ''a'' 100]\<rparr>"
    by (simp add: quiet_env_def sample_store_def sample_tables_def)
  have c: "api_token (intercom quiet_env) = Some ''token''"
    by (simp add: quiet_env_def mixed_remote_def)
  have d: "status (answers (intercom quiet_env) (served (intercom quiet_env))
            (Post search_url ''token'' (max_updated_payload (watermark (postgres quiet_env)))))
           = Some ''200 OK''"
    by (simp add: quiet_env_def mixed_remote_def)
  have e: "body (answers (intercom quiet_env) (served (intercom quiet_env))
            (Post search_url ''token'' (max_updated_payload (watermark (postgres quiet_env)))))
           = SearchResult 1 [\<lparr>conv_id = ''b'', updated_at = 140, source_type = ''email''\<rparr>]"
    by (simp add: quiet_env_def mixed_remote_def)
  have f: "\<forall>c\<in>set [\<lparr>conv_id = ''b'', updated_at = 140, source_type = ''email''\<rparr>].
      source_type c \<noteq> ''conversation''"
    by simp
  from no_new_data_commits_nothing [OF a b c d e f, of blank_str] watermark_quiet
  show ?thesis
    by (simp add: quiet_env_def sample_store_def)
qed

text \<open>
  Claim C1 states that the original exception is always raised again. When the database
  refuses the connection, \<open>GetDatabaseConnection\<close> raises before \<open>conn\<close> is assigned;
  the error handling then runs \<open>RollbackTransaction\<close>, which fails on the missing
  attribute, and that \<open>AttributeError\<close> is what leaves \<open>execute\<close>.
\<close>

theorem execute_reraise_counterexample:
  "fst (pre_execution_and_payloads (IntercomConversationPipeline blank_str unreachable_env))
     = Some (DatabaseError ''connection refused'')
   \<and> fst (execute (IntercomConversationPipeline blank_str unreachable_env))
     = Some (AttributeError ''conn'')"
  by (simp add: engine_eval IntercomConversationPipeline_def unreachable_env_def
        GetDatabaseConnection_def RollbackTransaction_def connect_def sample_store_def)

subsection \<open>Watermark\<close>

lemma follows_refl: "follows r r"
  by simp

lemma follows_trans:
  assumes "follows r r'" and "follows r' r''"
  shows "follows r r''"
proof -
  from assms obtain reqs reqs' where
    "requests_sent r' = requests_sent r @ reqs" "served r' = served r + length reqs"
    "requests_sent r'' = requests_sent r' @ reqs'" "served r'' = served r' + length reqs'"
    by auto
  then have "requests_sent r'' = requests_sent r @ (reqs @ reqs') \<and>
      served r'' = served r + length (reqs @ reqs')"
    by simp
  with assms show ?thesis by (intro conjI exI [of _ "reqs @ reqs'"]) simp_all
qed

lemma received_trans:
  assumes "follows r r'" and "follows r' r''"
  shows "received r r'' = received r r' @ received r' r''"
proof -
  from assms obtain reqs reqs' where
    a: "requests_sent r' = requests_sent r @ reqs" "served r' = served r + length reqs"
    and b: "requests_sent r'' = requests_sent r' @ reqs'" "served r'' = served r' + length reqs'"
    and ans: "answers r' = answers r"
    by auto
  have upt: "[served r..<served r + length reqs + length reqs']
      = [served r..<served r + length reqs] @ [served r + length reqs..<served r + length reqs + length reqs']"
    by (rule upt_add_eq_append) simp
  have "zip [served r..<served r + length reqs + length reqs'] (reqs @ reqs')
      = zip [served r..<served r + length reqs] reqs
        @ zip [served r + length reqs..<served r + length reqs + length reqs'] reqs'"
    unfolding upt by (rule zip_append) simp
  then show ?thesis
    by (simp add: received_def a b ans)
qed

lemma send_follows:
  "follows r (snd (send req r)) \<and> received r (snd (send req r)) = [fst (send req r)]"
  by (simp add: send_def received_def requests_sent_def)

lemma sleep_follows:
  "follows r (snd (sleep backoff r)) \<and> received r (snd (sleep backoff r)) = []"
  by (simp add: sleep_def received_def requests_sent_def)

lemma request_until_ok_follows_aux:
  "nat (retries + 1 - failed_attempts) = k \<Longrightarrow>
   request_until_ok req retries backoff failed_attempts r = (res, r') \<Longrightarrow>
   follows r r' \<and> (\<forall>resp f. res = Inr (resp, f) \<longrightarrow> resp \<in> set (received r r'))"
proof (induction k arbitrary: failed_attempts r)
  case 0
  then have "\<not> failed_attempts \<le> retries" by simp
  with "0.prems"(2) show ?case
    by (subst (asm) request_until_ok.simps) auto
next
  case (Suc k)
  then have le: "failed_attempts \<le> retries" by simp
  obtain resp1 r1 where s1: "send req r = (resp1, r1)" by (cases "send req r")
  have f1: "follows r r1" and rc1: "received r r1 = [resp1]"
    using send_follows [where r = r and req = req] s1 by simp_all
  obtain x r2 where s2: "sleep backoff r1 = (x, r2)" by (cases "sleep backoff r1")
  have f2: "follows r1 r2" and rc2: "received r1 r2 = []"
    using sleep_follows [where r = r1 and backoff = backoff] s2 by simp_all
  have f12: "follows r r2" by (rule follows_trans [OF f1 f2])
  have rec12: "received r r2 = [resp1]"
    using received_trans [OF f1 f2] rc1 rc2 by simp
  have unfold: "request_until_ok req retries backoff failed_attempts r =
      (case status resp1 of
         None \<Rightarrow> (Inl (KeyError ''Status''), r1)
       | Some st \<Rightarrow>
           if st = ''200 OK'' then (Inr (resp1, failed_attempts), r1)
           else (case x of Some e \<Rightarrow> (Inl e, r2)
                 | None \<Rightarrow> request_until_ok req retries backoff (failed_attempts + 1) r2))"
    using le s1 s2 by (subst request_until_ok.simps) (simp split: option.splits)
  show ?case
  proof (cases "status resp1")
    case None
    with Suc.prems(2) f1 show ?thesis unfolding unfold by auto
  next
    case (Some st)
    show ?thesis
    proof (cases "st = ''200 OK''")
      case True
      with Some Suc.prems(2) f1 rc1 show ?thesis unfolding unfold by auto
    next
      case False
      show ?thesis
      proof (cases x)
        case (Some e)
        with \<open>status resp1 = Some st\<close> False Suc.prems(2) f12 show ?thesis
          unfolding unfold by auto
      next
        case None
        with \<open>status resp1 = Some st\<close> False Suc.prems(2) have rec:
          "request_until_ok req retries backoff (failed_attempts + 1) r2 = (res, r')"
          unfolding unfold by simp
        have "nat (retries + 1 - (failed_attempts + 1)) = k"
          using Suc.prems(1) by simp
        from Suc.IH [OF this rec] have ih: "follows r2 r'"
          "\<forall>resp f. res = Inr (resp, f) \<longrightarrow> resp \<in> set (received r2 r')"
          by auto
        have "follows r r'" by (rule follows_trans [OF f12 ih(1)])
        moreover have "received r r' = [resp1] @ received r2 r'"
          using received_trans [OF f12 ih(1)] rec12 by simp
        ultimately show ?thesis using ih(2) by auto
      qed
    qed
  qed
qed

lemmas request_until_ok_follows = request_until_ok_follows_aux [OF refl]


lemma fetch_pages_follows_aux:
  "nat (retries + 1 - failed_attempts) + nat current_page = m \<Longrightarrow>
   fetch_pages token start until retries backoff failed_attempts current_page acc r = (res, r') \<Longrightarrow>
   follows r r'"
proof (induction m arbitrary: failed_attempts current_page acc r)
  case 0
  then have "\<not> failed_attempts \<le> retries" by simp
  with "0.prems"(2) show ?case
    by (subst (asm) fetch_pages.simps) auto
next
  case (Suc m)
  show ?case
  proof (cases "failed_attempts \<le> retries")
    case False
    with Suc.prems(2) show ?thesis
      by (subst (asm) fetch_pages.simps) auto
  next
    case le: True
    let ?req = "Post search_url token (get_payload start until current_page)"
    obtain resp1 r1 where s1: "send ?req r = (resp1, r1)" by (cases "send ?req r")
    have f1: "follows r r1"
      using send_follows [where r = r and req = ?req] s1 by simp
    obtain x r2 where s2: "sleep backoff r1 = (x, r2)" by (cases "sleep backoff r1")
    have f2: "follows r1 r2"
      using sleep_follows [where r = r1 and backoff = backoff] s2 by simp
    have f12: "follows r r2" by (rule follows_trans [OF f1 f2])
    have unfold: "fetch_pages token start until retries backoff failed_attempts current_page acc r =
      (case status resp1 of
         None \<Rightarrow> (Inl (KeyError ''Status''), r1)
       | Some st \<Rightarrow>
           if st = ''200 OK'' then
             (case body resp1 of
                Document j \<Rightarrow> (Inl (key_error j ''conversations''), r1)
              | SearchResult total_pages conversations \<Rightarrow>
                  if current_page > 1 then
                    fetch_pages token start until retries backoff failed_attempts
                      (current_page - 1)
                      (acc @ map conv_id
                         (filter (\<lambda>conv. source_type conv = ''conversation'') conversations)) r1
                  else (Inr (acc @ map conv_id
                         (filter (\<lambda>conv. source_type conv = ''conversation'') conversations)), r1))
           else (case x of Some e \<Rightarrow> (Inl e, r2)
                 | None \<Rightarrow> fetch_pages token start until retries backoff (failed_attempts + 1)
                             current_page acc r2))"
      using le s1 s2
      by (subst fetch_pages.simps) (simp add: Let_def split: option.splits body.splits)
    show ?thesis
    proof (cases "status resp1")
      case None
      with Suc.prems(2) f1 show ?thesis unfolding unfold by auto
    next
      case (Some st)
      show ?thesis
      proof (cases "st = ''200 OK''")
        case False
        show ?thesis
        proof (cases x)
          case (Some e)
          with \<open>status resp1 = Some st\<close> False Suc.prems(2) f12 show ?thesis
            unfolding unfold by auto
        next
          case None
          with \<open>status resp1 = Some st\<close> False Suc.prems(2) have rec:
            "fetch_pages token start until retries backoff (failed_attempts + 1) current_page
               acc r2 = (res, r')"
            unfolding unfold by simp
          have "nat (retries + 1 - (failed_attempts + 1)) + nat current_page = m"
            using Suc.prems(1) le by simp
          from Suc.IH [OF this rec] have "follows r2 r'" .
          with f12 show ?thesis by (rule follows_trans)
        qed
      next
        case True
        show ?thesis
        proof (cases "body resp1")
          case (Document j)
          with True Some Suc.prems(2) f1 show ?thesis unfolding unfold by auto
        next
          case (SearchResult total_pages conversations)
          show ?thesis
          proof (cases "current_page > 1")
            case False
            with SearchResult True Some Suc.prems(2) f1 show ?thesis unfolding unfold by auto
          next
            case gt: True
            with SearchResult True Some Suc.prems(2) have rec:
              "fetch_pages token start until retries backoff failed_attempts (current_page - 1)
                 (acc @ map conv_id
                    (filter (\<lambda>conv. source_type conv = ''conversation'') conversations)) r1
               = (res, r')"
              unfolding unfold by simp
            have "nat (retries + 1 - failed_attempts) + nat (current_page - 1) = m"
              using Suc.prems(1) gt by simp
            from Suc.IH [OF this rec] have "follows r1 r'" .
            with f1 show ?thesis by (rule follows_trans)
          qed
        qed
      qed
    qed
  qed
qed

lemma search_ids_follows:
  assumes "get_conversation_ids_last_updated_between_timestamps start until retries backoff r
      = (res, r')"
  shows "follows r r'"
proof (cases "api_token r")
  case None
  with assms show ?thesis
    by (auto simp: get_conversation_ids_last_updated_between_timestamps_def)
next
  case (Some token)
  let ?req = "Post search_url token (get_payload start until 1)"
  obtain res1 r1 where l: "request_until_ok ?req retries backoff 0 r = (res1, r1)"
    by (cases "request_until_ok ?req retries backoff 0 r")
  from request_until_ok_follows [OF l] have f1: "follows r r1" by simp
  show ?thesis
  proof (cases res1)
    case (Inl e)
    with assms Some l f1 show ?thesis
      by (auto simp: get_conversation_ids_last_updated_between_timestamps_def)
  next
    case (Inr p)
    obtain resp f where p: "p = (resp, f)" by (cases p)
    show ?thesis
    proof (cases "body resp")
      case (Document j)
      with assms Some l f1 Inr p show ?thesis
        by (auto simp: get_conversation_ids_last_updated_between_timestamps_def)
    next
      case (SearchResult total_pages conversations)
      with assms Some l Inr p have
        "fetch_pages token start until retries backoff f total_pages [] r1 = (res, r')"
        by (simp add: get_conversation_ids_last_updated_between_timestamps_def)
      from fetch_pages_follows_aux [OF refl this] have "follows r1 r'" .
      with f1 show ?thesis by (rule follows_trans)
    qed
  qed
qed

lemma max_query_follows:
  assumes "get_conversation_max_updated_timestamp start retries backoff r = (res, r')"
  shows "follows r r' \<and>
         (\<forall>E. res = Inr (Some E) \<longrightarrow>
            (\<exists>resp\<in>set (received r r'). counted resp \<noteq> [] \<and>
               E = Max (set (map updated_at (counted resp)))))"
proof (cases "api_token r")
  case None
  with assms show ?thesis
    by (auto simp: get_conversation_max_updated_timestamp_def)
next
  case (Some token)
  let ?req = "Post search_url token (max_updated_payload start)"
  obtain res1 r1 where l: "request_until_ok ?req retries backoff 0 r = (res1, r1)"
    by (cases "request_until_ok ?req retries backoff 0 r")
  note f = request_until_ok_follows [OF l]
  show ?thesis
  proof (cases res1)
    case (Inl e)
    with assms Some l f show ?thesis
      by (auto simp: get_conversation_max_updated_timestamp_def)
  next
    case (Inr p)
    obtain resp fa where p: "p = (resp, fa)" by (cases p)
    with f Inr have in_r: "resp \<in> set (received r r1)" by simp
    show ?thesis
    proof (cases "body resp")
      case (Document j)
      with assms Some l f Inr p show ?thesis
        by (auto simp: get_conversation_max_updated_timestamp_def)
    next
      case (SearchResult total_pages conversations)
      then have c: "counted resp
          = filter (\<lambda>conv. source_type conv = ''conversation'') conversations"
        by (simp add: counted_def)
      from assms Some l Inr p SearchResult have r': "r' = r1"
        and res: "res = Inr (if counted resp \<noteq> []
                    then Some (Max (set (map updated_at (counted resp)))) else None)"
        by (auto simp: get_conversation_max_updated_timestamp_def Let_def c)
      from f r' in_r res show ?thesis
        by (auto split: if_splits)
    qed
  qed
qed

lemma conversation_details_follows:
  assumes "get_conversation_details cid retries backoff r = (res, r')"
  shows "follows r r' \<and>
         (\<forall>b. res = Inr b \<longrightarrow> (\<exists>resp\<in>set (received r r'). body resp = b))"
proof (cases "api_token r")
  case None
  with assms show ?thesis
    by (auto simp: get_conversation_details_def)
next
  case (Some token)
  let ?req = "Get (''https://api.intercom.io/conversations/'' @ cid) token"
  obtain res1 r1 where l: "request_until_ok ?req retries backoff 0 r = (res1, r1)"
    by (cases "request_until_ok ?req retries backoff 0 r")
  note f = request_until_ok_follows [OF l]
  show ?thesis
  proof (cases res1)
    case (Inl e)
    with assms Some l f show ?thesis
      by (auto simp: get_conversation_details_def)
  next
    case (Inr p)
    obtain resp fa where p: "p = (resp, fa)" by (cases p)
    with assms Some l f Inr show ?thesis
      by (auto simp: get_conversation_details_def)
  qed
qed

subsection \<open>Watermark\<close>

lemma delete_where_stored:
  "set (stored_conversations (tables (snd (delete_where schema_name table col v d))))
     \<subseteq> set (stored_conversations (tables d))"
  by (auto simp: delete_where_def stored_conversations_def issue_def Let_def
        split: option.splits if_splits)

lemma copy_from_stdin_stored:
  "set (stored_conversations (tables (snd (copy_from_stdin schema_opt table cols recs d))))
     \<subseteq> set (stored_conversations (tables d))
        \<union> (if table = ''conversations'' then set (map (row_of cols) recs) else {})"
  by (cases schema_opt)
     (auto simp: copy_from_stdin_def stored_conversations_def issue_def Let_def
        split: option.splits if_splits)

lemma load_dataframe_stored:
  "set (stored_conversations (tables (snd (load_dataframe_to_table schema_opt table df d))))
     \<subseteq> set (stored_conversations (tables d))
        \<union> (if table = ''conversations'' then set (map (row_of (columns df)) (records df)) else {})"
  using copy_from_stdin_stored [of schema_opt table "columns df" "records df" d]
  by (auto simp: load_dataframe_to_table_def)

lemma create_temporary_stored:
  "stored_conversations (tables (snd (create_temporary_table_like tmp schema_name table d)))
     = stored_conversations (tables d)"
  by (auto simp: create_temporary_table_like_def stored_conversations_def issue_def Let_def
        split: option.splits)

lemma merge_into_stored:
  "table \<noteq> ''conversations'' \<Longrightarrow>
   stored_conversations (tables (snd (merge_into schema_name table tmp pk non_pk cols d)))
     = stored_conversations (tables d)"
  by (auto simp: merge_into_def stored_conversations_def issue_def Let_def
        split: option.splits if_splits)

lemma truncate_stored:
  "stored_conversations (tables (snd (truncate_table tmp d))) = stored_conversations (tables d)"
  by (auto simp: truncate_table_def stored_conversations_def issue_def Let_def
        split: option.splits)

lemma get_primary_key_name_tables:
  "tables (snd (get_primary_key_name schema_name table d)) = tables d"
  by (auto simp: get_primary_key_name_def issue_def Let_def split: list.splits)

lemma get_key_columns_tables:
  "tables (snd (get_key_columns schema_name name d)) = tables d"
  by (simp add: get_key_columns_def issue_def)

lemma merge_dataframe_stored:
  assumes "table \<noteq> ''conversations''"
  shows "stored_conversations (tables (snd (merge_dataframe_into_table schema_name table df d)))
     = stored_conversations (tables d)"
proof (cases "length (records df) = 0")
  case True
  then show ?thesis by (simp add: merge_dataframe_into_table_def)
next
  case False
  obtain r1 d1 where g: "get_primary_key_name schema_name table d = (r1, d1)"
    by (cases "get_primary_key_name schema_name table d")
  have d1: "tables d1 = tables d"
    using get_primary_key_name_tables [of schema_name table d] g by simp
  show ?thesis
  proof (cases r1)
    case (Inl e)
    with False g d1 show ?thesis by (simp add: merge_dataframe_into_table_def)
  next
    case (Inr name)
    obtain pk d2 where k: "get_key_columns schema_name name d1 = (pk, d2)"
      by (cases "get_key_columns schema_name name d1")
    have d2: "tables d2 = tables d"
      using get_key_columns_tables [of schema_name name d1] k d1 by simp
    let ?tmp = "''tmp_'' @ table"
    obtain r3 d3 where c: "create_temporary_table_like ?tmp schema_name table d2 = (r3, d3)"
      by (cases "create_temporary_table_like ?tmp schema_name table d2")
    have d3: "stored_conversations (tables d3) = stored_conversations (tables d)"
      using create_temporary_stored [of ?tmp schema_name table d2] c d2 by simp
    obtain r4 d4 where l: "load_dataframe_to_table None ?tmp df d3 = (r4, d4)"
      by (cases "load_dataframe_to_table None ?tmp df d3")
    have d4: "stored_conversations (tables d4) = stored_conversations (tables d)"
    proof -
      have "tables d4 (''intercom'', ''conversations'') = tables d3 (''intercom'', ''conversations'')"
        using l by (auto simp: load_dataframe_to_table_def copy_from_stdin_def issue_def Let_def
            split: option.splits if_splits)
      then show ?thesis using d3 by (simp add: stored_conversations_def)
    qed
    let ?non_pk = "filter (\<lambda>col. col \<notin> set pk) (columns df)"
    obtain r5 d5 where m: "merge_into schema_name table ?tmp pk ?non_pk (columns df) d4 = (r5, d5)"
      by (cases "merge_into schema_name table ?tmp pk ?non_pk (columns df) d4")
    have d5: "stored_conversations (tables d5) = stored_conversations (tables d)"
      using merge_into_stored [OF assms, of schema_name ?tmp pk ?non_pk "columns df" d4] m d4
      by simp
    have d6: "stored_conversations (tables (snd (truncate_table ?tmp d5)))
        = stored_conversations (tables d)"
      using truncate_stored [of ?tmp d5] d5 by simp
    show ?thesis
      using False g Inr k c l m d3 d4 d5 d6
      by (simp add: merge_dataframe_into_table_def Let_def split: option.splits)
  qed
qed

lemma in_order_invariant:
  assumes "\<And>f s. f \<in> set fs \<Longrightarrow> Q s \<Longrightarrow> Q (snd (f s))" and "Q s"
  shows "Q (snd (in_order fs s))"
  using assms
proof (induction fs arbitrary: s)
  case Nil
  then show ?case by simp
next
  case (Cons f fs)
  obtain r s' where f: "f s = (r, s')" by (cases "f s")
  have q: "Q s'" using Cons.prems(1) [of f s] Cons.prems(2) f by simp
  show ?case
  proof (cases r)
    case None
    with f Cons.IH [of s'] Cons.prems(1) q show ?thesis by simp
  next
    case (Some e)
    with f q show ?thesis by simp
  qed
qed

lemma row_dict_Inr:
  "row_dict es = Inr kvs \<Longrightarrow> es = map (\<lambda>(k, v). (k, Inr v)) kvs"
proof (induction es arbitrary: kvs)
  case Nil
  then show ?case by simp
next
  case (Cons a es)
  obtain k v where a: "a = (k, v)" by (cases a)
  show ?case
  proof (cases v)
    case (Inl e)
    with Cons.prems a show ?thesis by simp
  next
    case (Inr j)
    with Cons.prems a obtain rest where "row_dict es = Inr rest" "kvs = (k, j) # rest"
      by (auto split: sum.splits)
    with Cons.IH [of rest] a Inr show ?thesis by simp
  qed
qed

lemma capped_value:
  assumes "capped (Inr j) until = Inr v"
  shows "\<exists>n. as_int j = Some n \<and> as_int v = Some (min n until) \<and>
             (\<forall>m. j = JInt m \<longrightarrow> v = JInt (min m until))"
proof -
  from assms obtain n where n: "as_int j = Some n"
    and v: "v = (if until < n then JInt until else j)"
    by (cases "as_int j") (auto simp: capped_def split: if_splits)
  show ?thesis
  proof (cases "until < n")
    case True
    with n v show ?thesis by (auto simp: min_def)
  next
    case False
    with n v show ?thesis by (auto simp: min_def)
  qed
qed

lemma conversations_frame:
  assumes "row_dicts (conversations_rows d until) = Inr dicts"
  shows "\<exists>j v kvs. item d ''updated_at'' = Inr j \<and> capped (Inr j) until = Inr v \<and>
           dicts = [kvs] \<and> row_of (map fst kvs) (map snd kvs) ''updated_at'' = v"
proof -
  from assms obtain kvs where kvs: "row_dict (hd (conversations_rows d until)) = Inr kvs"
    and dicts: "dicts = [kvs]"
    by (auto simp: conversations_rows_def split: sum.splits)
  from row_dict_Inr [OF kvs] obtain v where
    v: "capped (item d ''updated_at'') until = Inr v"
    "row_of (map fst kvs) (map snd kvs) ''updated_at'' = v"
    by (auto simp: conversations_rows_def Cons_eq_map_conv row_of_def)
  from v(1) obtain j where "item d ''updated_at'' = Inr j"
    by (cases "item d ''updated_at''") (simp_all add: capped_def)
  with v dicts show ?thesis by auto
qed

lemma assign_frame_other:
  "attr \<noteq> ''conversations'' \<Longrightarrow>
   frames (snd (assign_frame attr rows x)) ''conversations'' = frames x ''conversations'' \<and>
   end_timestamp (snd (assign_frame attr rows x)) = end_timestamp x \<and>
   db_schema (snd (assign_frame attr rows x)) = db_schema x \<and>
   api_data (snd (assign_frame attr rows x)) = api_data x"
  by (simp add: assign_frame_def split: sum.splits)

lemma parse_api_data_frame:
  assumes "parse_api_data str_of d x = (None, x')"
  shows "end_timestamp x' = end_timestamp x \<and> db_schema x' = db_schema x \<and>
         api_data x' = api_data x \<and>
         (\<exists>j v kvs. item d ''updated_at'' = Inr j \<and>
            capped (Inr j) (end_timestamp x) = Inr v \<and>
            frames x' ''conversations'' = Some (frame_of [kvs]) \<and>
            row_of (map fst kvs) (map snd kvs) ''updated_at'' = v)"
proof -
  define first where
    "first = assign_frame ''conversations'' (row_dicts (conversations_rows d (end_timestamp x)))"
  have "\<exists>rest. parse_api_data str_of d x = in_order (first # rest) x \<and>
      (\<forall>f\<in>set rest. \<exists>attr rows. attr \<noteq> ''conversations'' \<and> f = assign_frame attr rows)"
    unfolding parse_api_data_def Let_def first_def
    apply (intro exI conjI)
     apply (rule refl)
    apply (simp only: set_simps ball_simps)
    apply (intro conjI TrueI exI [of "\<lambda>attr. \<exists>rows. attr \<noteq> ''conversations'' \<and>
        assign_frame a rs = assign_frame attr rows" for a rs, OF exI, OF conjI, OF _ refl])
            apply simp_all
    done
  then obtain rest where rest: "parse_api_data str_of d x = in_order (first # rest) x"
    and others: "\<forall>f\<in>set rest. \<exists>attr rows. attr \<noteq> ''conversations'' \<and> f = assign_frame attr rows"
    by blast
  obtain r1 x1 where f: "first x = (r1, x1)" by (cases "first x")
  with assms rest have r1: "r1 = None" and tl: "in_order rest x1 = (None, x')"
    by (auto split: option.splits)
  from f r1 obtain dicts where
    dicts: "row_dicts (conversations_rows d (end_timestamp x)) = Inr dicts"
    and x1: "x1 = x\<lparr>frames := (frames x)(''conversations'' \<mapsto> frame_of dicts)\<rparr>"
    by (auto simp: first_def assign_frame_def split: sum.splits)
  let ?Q = "\<lambda>y. frames y ''conversations'' = frames x1 ''conversations'' \<and>
     end_timestamp y = end_timestamp x1 \<and> db_schema y = db_schema x1 \<and> api_data y = api_data x1"
  have "?Q (snd (in_order rest x1))"
  proof (rule in_order_invariant)
    fix f and s :: payload
    assume "f \<in> set rest" and q: "?Q s"
    with others obtain attr rows where "attr \<noteq> ''conversations''" "f = assign_frame attr rows"
      by blast
    with assign_frame_other [of attr rows s] q show "?Q (snd (f s))" by simp
  qed simp
  with tl x1 conversations_frame [OF dicts] show ?thesis by auto
qed

lemma run_payload_steps_invariant:
  assumes "\<And>name step y s. (name, step) \<in> set steps \<Longrightarrow> K y s \<Longrightarrow>
      (fst (step y s) = None \<longrightarrow> K (fst (snd (step y s))) (snd (snd (step y s)))) \<and>
      (not_an_error (fst (step y s)) \<longrightarrow> I (snd (snd (step y s))))"
    and "\<And>y s. K y s \<Longrightarrow> I s"
    and "K x (env p)" and "not_an_error (fst (run_payload_steps steps x p))"
  shows "I (env (snd (snd (run_payload_steps steps x p))))"
  using assms
proof (induction steps arbitrary: x p)
  case Nil
  then show ?case by simp
next
  case (Cons a steps)
  obtain name step where a: "a = (name, step)" by (cases a)
  obtain r x' s where st: "step x (env p) = (r, x', s)" by (cases "step x (env p)")
  have hyp: "(r = None \<longrightarrow> K x' s) \<and> (not_an_error r \<longrightarrow> I s)"
    using Cons.prems(1) [of name step x "env p"] Cons.prems(3) st a by simp
  show ?case
  proof (cases r)
    case None
    let ?p' = "log_info (FinishedPipelineStep name) (log_info (StartingPipelineStep name) p\<lparr>env := s\<rparr>)"
    have run: "run_payload_steps (a # steps) x p = run_payload_steps steps x' ?p'"
      using st None by (simp add: a Let_def log_info_def)
    have "I (env (snd (snd (run_payload_steps steps x' ?p'))))"
    proof (rule Cons.IH)
      show "K x' (env ?p')" using hyp None by (simp add: log_info_def)
      show "not_an_error (fst (run_payload_steps steps x' ?p'))"
        using Cons.prems(4) run by simp
    qed (use Cons.prems(1,2) in auto)
    with run show ?thesis by simp
  next
    case (Some e)
    with st Cons.prems(4) hyp show ?thesis
      by (cases e) (simp_all add: a Let_def log_info_def)
  qed
qed

lemma run_payload_invariant:
  assumes "\<And>name step y s. (name, step) \<in> set (pipeline_steps p) \<Longrightarrow> K y s \<Longrightarrow>
      (fst (step y s) = None \<longrightarrow> K (fst (snd (step y s))) (snd (snd (step y s)))) \<and>
      (not_an_error (fst (step y s)) \<longrightarrow> I (snd (snd (step y s))))"
    and "\<And>y s. K y s \<Longrightarrow> I s"
    and "K x (env p)" and "not_an_error (fst (run_payload p x))"
  shows "I (env (snd (snd (run_payload p x))))"
proof -
  obtain r x' p' where rp: "run_payload_steps (pipeline_steps p) x p = (r, x', p')"
    by (cases "run_payload_steps (pipeline_steps p) x p")
  have "not_an_error r"
    using assms(4) rp by (cases r) (simp_all add: run_payload_def)
  with run_payload_steps_invariant [of "pipeline_steps p" K I x p] assms(1-3) rp
  have "I (env p')" by simp
  with rp show ?thesis
    by (cases r) (simp_all add: run_payload_def log_info_def)
qed

lemma run_payload_queue_invariant:
  assumes "\<And>name step y s. (name, step) \<in> set (pipeline_steps p) \<Longrightarrow> K y s \<Longrightarrow>
      (fst (step y s) = None \<longrightarrow> K (fst (snd (step y s))) (snd (snd (step y s)))) \<and>
      (not_an_error (fst (step y s)) \<longrightarrow> I (snd (snd (step y s))))"
    and "\<And>y s. K y s \<Longrightarrow> I s"
    and "\<And>y s. J y \<Longrightarrow> I s \<Longrightarrow> K y s"
    and "I (env p)" and "\<forall>x\<in>set q. J x" and "not_an_error (fst (run_payload_queue q p))"
  shows "I (env (snd (run_payload_queue q p)))"
  using assms
proof (induction q arbitrary: p)
  case Nil
  then show ?case by simp
next
  case (Cons x xs)
  let ?p0 = "log_info (PayloadsToProcess (length (x # xs))) (p\<lparr>payloads := Some (x # xs)\<rparr>)"
  obtain r x' p' where rp: "run_payload ?p0 x = (r, x', p')"
    by (cases "run_payload ?p0 x")
  have ps0: "pipeline_steps ?p0 = pipeline_steps p" by (simp add: log_info_def)
  have ps: "pipeline_steps p' = pipeline_steps p"
    using pipeline_steps_run_payload [of ?p0 x] rp by (simp add: log_info_def)
  have q: "not_an_error r"
    using Cons.prems(6) rp by (cases r) simp_all
  have "I (env (snd (snd (run_payload ?p0 x))))"
  proof (rule run_payload_invariant [of ?p0 K I x])
    show "K x (env ?p0)" using Cons.prems(3) [of x "env p"] Cons.prems(4,5)
      by (simp add: log_info_def)
    show "not_an_error (fst (run_payload ?p0 x))" using q rp by simp
  qed (use Cons.prems(1,2) ps0 in auto)
  then have i: "I (env p')" using rp by simp
  show ?case
  proof (cases r)
    case (Some e)
    with rp i show ?thesis by simp
  next
    case None
    let ?p1 = "p'\<lparr>payloads := Some xs\<rparr>"
    have "I (env (snd (run_payload_queue xs ?p1)))"
    proof (rule Cons.IH)
      show "I (env ?p1)" using i by simp
      show "\<forall>x\<in>set xs. J x" using Cons.prems(5) by simp
      show "not_an_error (fst (run_payload_queue xs ?p1))"
        using Cons.prems(6) rp None by simp
    qed (use Cons.prems(1,2,3) ps in auto)
    with rp None show ?thesis by simp
  qed
qed

lemma run_all_payloads_invariant:
  assumes "\<And>name step y s. (name, step) \<in> set (pipeline_steps p) \<Longrightarrow> K y s \<Longrightarrow>
      (fst (step y s) = None \<longrightarrow> K (fst (snd (step y s))) (snd (snd (step y s)))) \<and>
      (not_an_error (fst (step y s)) \<longrightarrow> I (snd (snd (step y s))))"
    and "\<And>y s. K y s \<Longrightarrow> I s"
    and "\<And>y s. J y \<Longrightarrow> I s \<Longrightarrow> K y s"
    and "I (env p)" and "\<forall>q. payloads p = Some q \<longrightarrow> (\<forall>x\<in>set q. J x)"
    and "not_an_error (fst (run_all_payloads p))"
  shows "I (env (snd (run_all_payloads p)))"
proof (cases "payloads p")
  case None
  with assms(6) show ?thesis by (simp add: run_all_payloads_def)
next
  case (Some q)
  show ?thesis
  proof (cases q)
    case Nil
    with Some assms(4) show ?thesis by (simp add: run_all_payloads_def log_info_def)
  next
    case (Cons x xs)
    obtain r p' where rq: "run_payload_queue (x # xs) p = (r, p')"
      by (cases "run_payload_queue (x # xs) p")
    have "not_an_error r"
      using assms(6) Some Cons rq by (cases r) (simp_all add: run_all_payloads_def)
    with run_payload_queue_invariant [of p K I J "x # xs"] assms(1-5) Some Cons rq
    have "I (env p')" by simp
    with Some Cons rq show ?thesis
      by (cases r) (simp_all add: run_all_payloads_def log_info_def)
  qed
qed

lemma post_execution_steps_payload_steps:
  "post_execution_steps (snd (snd (run_payload_steps steps x p))) = post_execution_steps p"
proof (induction steps arbitrary: x p)
  case Nil
  then show ?case by simp
next
  case (Cons a steps)
  obtain name step where a: "a = (name, step)" by (cases a)
  show ?case
    by (simp add: a Let_def Cons.IH log_info_def split: prod.splits option.splits exn.splits)
qed

lemma post_execution_steps_run_payload:
  "post_execution_steps (snd (snd (run_payload p x))) = post_execution_steps p"
  using post_execution_steps_payload_steps [of "pipeline_steps p" x p]
  by (cases "run_payload_steps (pipeline_steps p) x p")
     (auto simp: run_payload_def log_info_def split: option.splits)

lemma post_execution_steps_payload_queue:
  "post_execution_steps (snd (run_payload_queue q p)) = post_execution_steps p"
proof (induction q arbitrary: p)
  case Nil
  then show ?case by simp
next
  case (Cons x xs)
  let ?p0 = "log_info (PayloadsToProcess (length (x # xs))) (p\<lparr>payloads := Some (x # xs)\<rparr>)"
  obtain r x' p' where rp: "run_payload ?p0 x = (r, x', p')"
    by (cases "run_payload ?p0 x")
  have ps: "post_execution_steps p' = post_execution_steps p"
    using post_execution_steps_run_payload [of ?p0 x] rp by (simp add: log_info_def)
  show ?case
    using rp ps Cons.IH [of "p'\<lparr>payloads := Some xs\<rparr>"]
    by (cases r) simp_all
qed

lemma post_execution_steps_all_payloads:
  "post_execution_steps (snd (run_all_payloads p)) = post_execution_steps p"
proof (cases "payloads p")
  case None
  then show ?thesis by (simp add: run_all_payloads_def)
next
  case (Some q)
  show ?thesis
  proof (cases q)
    case Nil
    with Some show ?thesis by (simp add: run_all_payloads_def log_info_def)
  next
    case (Cons x xs)
    with Some post_execution_steps_payload_queue [of "x # xs" p] show ?thesis
      by (cases "run_payload_queue (x # xs) p"; cases "fst (run_payload_queue (x # xs) p)")
         (simp_all add: run_all_payloads_def log_info_def)
  qed
qed

lemma in_order_append:
  "in_order (fs @ gs) s =
    (case in_order fs s of (Some e, s') \<Rightarrow> (Some e, s') | (None, s') \<Rightarrow> in_order gs s')"
  by (induction fs arbitrary: s) (auto split: prod.splits option.splits)

lemma in_order_raises:
  assumes "\<And>f s e. f \<in> set fs \<Longrightarrow> fst (f s) = Some e \<Longrightarrow> Q e"
    and "fst (in_order fs s) = Some e"
  shows "Q e"
  using assms
proof (induction fs arbitrary: s)
  case Nil
  then show ?case by simp
next
  case (Cons f fs)
  obtain r s' where f: "f s = (r, s')" by (cases "f s")
  show ?case
  proof (cases r)
    case None
    with f Cons.prems(2) have "fst (in_order fs s') = Some e" by simp
    from Cons.IH [OF _ this] Cons.prems(1) show ?thesis by auto
  next
    case (Some e')
    with f Cons.prems(2) have "e' = e" by simp
    with Cons.prems(1) [of f s e] f Some show ?thesis by simp
  qed
qed

lemma delete_where_raises:
  "fst (delete_where schema_name table col v d) = Some e \<Longrightarrow> \<not> not_an_error (Some e)"
  by (auto simp: delete_where_def Let_def split: option.splits if_splits)

lemma load_dataframe_to_table_raises:
  "fst (load_dataframe_to_table schema_opt table df d) = Some e \<Longrightarrow> \<not> not_an_error (Some e)"
  by (auto simp: load_dataframe_to_table_def copy_from_stdin_def Let_def
        split: option.splits if_splits)

lemma merge_dataframe_into_table_raises:
  assumes "fst (merge_dataframe_into_table schema_name table df d) = Some e"
  shows "\<not> not_an_error (Some e)"
proof -
  have a: "get_primary_key_name schema_name table d = (Inl e', d2) \<Longrightarrow> \<not> not_an_error (Some e')"
    for e' d2 by (auto simp: get_primary_key_name_def Let_def split: list.splits)
  have b: "create_temporary_table_like tmp schema_name table d' = (Some e', d2)
      \<Longrightarrow> \<not> not_an_error (Some e')" for e' tmp d' d2
    by (auto simp: create_temporary_table_like_def Let_def split: option.splits)
  have c: "merge_into schema_name table tmp pk non_pk cols d' = (Some e', d2)
      \<Longrightarrow> \<not> not_an_error (Some e')" for e' tmp pk non_pk cols d' d2
    by (auto simp: merge_into_def Let_def split: option.splits if_splits)
  have t: "fst (truncate_table tmp d') = Some e' \<Longrightarrow> \<not> not_an_error (Some e')" for e' tmp d'
    by (auto simp: truncate_table_def Let_def split: option.splits)
  have l: "load_dataframe_to_table schema_opt tmp df d' = (Some e', d2)
      \<Longrightarrow> \<not> not_an_error (Some e')" for e' schema_opt tmp d' d2
    using load_dataframe_to_table_raises [of schema_opt tmp df d' e'] by simp
  from assms show ?thesis
    unfolding merge_dataframe_into_table_def Let_def
    by (auto split: if_splits prod.splits sum.splits option.splits dest: a b c t l)
qed

lemma load_to_database_raises:
  assumes "fst (load_to_database x d) = Some e"
  shows "\<not> not_an_error (Some e)"
proof (rule in_order_raises [OF _ assms [unfolded load_to_database_def]])
  fix g :: "database \<Rightarrow> exn option \<times> database" and s :: database and e'
  assume g: "g \<in> set (replace_rows x ''conversations'' ''id''
      @ replace_rows x ''conversation_contacts'' ''conversation_id''
      @ replace_rows x ''conversation_first_contact_replies'' ''conversation_id''
      @ replace_rows x ''conversation_ratings'' ''conversation_id''
      @ replace_rows x ''conversation_sla_applied'' ''conversation_id''
      @ replace_rows x ''conversation_sources'' ''conversation_id''
      @ replace_rows x ''conversation_statistics'' ''conversation_id''
      @ replace_rows x ''conversation_tags'' ''conversation_id''
      @ replace_rows x ''conversation_teammates'' ''conversation_id''
      @ [\<lambda>d. case frames x ''conversation_parts'' of
                None \<Rightarrow> (Some (AttributeError ''conversation_parts''), d)
              | Some df \<Rightarrow>
                  merge_dataframe_into_table (db_schema x) ''conversation_parts'' df d])"
    and r: "fst (g s) = Some e'"
  have ld: "fst (case frames x table of
             None \<Rightarrow> (Some (AttributeError table), s)
           | Some df \<Rightarrow> load_dataframe_to_table (Some (db_schema x)) table df s) = Some e'
      \<Longrightarrow> \<not> not_an_error (Some e')" for table
    by (auto split: option.splits dest: load_dataframe_to_table_raises)
  have mg: "fst (case frames x ''conversation_parts'' of
                None \<Rightarrow> (Some (AttributeError ''conversation_parts''), s)
              | Some df \<Rightarrow>
                  merge_dataframe_into_table (db_schema x) ''conversation_parts'' df s) = Some e'
      \<Longrightarrow> \<not> not_an_error (Some e')"
    by (auto split: option.splits dest: merge_dataframe_into_table_raises)
  from g r show "\<not> not_an_error (Some e')"
    unfolding replace_rows_def set_append set_simps
    by (elim UnE insertE emptyE) (auto dest: delete_where_raises ld mg)
qed

lemma load_to_database_subset:
  assumes "set (stored_conversations (tables d)) \<subseteq> A"
    and "\<And>f. frames x ''conversations'' = Some f \<Longrightarrow>
           row_of (columns f) ` set (records f) \<subseteq> A"
  shows "set (stored_conversations (tables (snd (load_to_database x d)))) \<subseteq> A"
  unfolding load_to_database_def
proof (rule in_order_invariant [where Q = "\<lambda>d. set (stored_conversations (tables d)) \<subseteq> A"])
  fix g :: "database \<Rightarrow> exn option \<times> database" and s :: database
  assume g: "g \<in> set (replace_rows x ''conversations'' ''id''
      @ replace_rows x ''conversation_contacts'' ''conversation_id''
      @ replace_rows x ''conversation_first_contact_replies'' ''conversation_id''
      @ replace_rows x ''conversation_ratings'' ''conversation_id''
      @ replace_rows x ''conversation_sla_applied'' ''conversation_id''
      @ replace_rows x ''conversation_sources'' ''conversation_id''
      @ replace_rows x ''conversation_statistics'' ''conversation_id''
      @ replace_rows x ''conversation_tags'' ''conversation_id''
      @ replace_rows x ''conversation_teammates'' ''conversation_id''
      @ [\<lambda>d. case frames x ''conversation_parts'' of
                None \<Rightarrow> (Some (AttributeError ''conversation_parts''), d)
              | Some df \<Rightarrow>
                  merge_dataframe_into_table (db_schema x) ''conversation_parts'' df d])"
    and q: "set (stored_conversations (tables s)) \<subseteq> A"
  have del: "set (stored_conversations (tables (snd (delete_where sn table col v s)))) \<subseteq> A"
    for sn table col v
    using delete_where_stored [of sn table col v s] q by blast
  have ld: "set (stored_conversations (tables (snd (case frames x table of
             None \<Rightarrow> (Some (AttributeError table), s)
           | Some df \<Rightarrow> load_dataframe_to_table (Some (db_schema x)) table df s)))) \<subseteq> A"
    for table
  proof (cases "frames x table")
    case None
    with q show ?thesis by simp
  next
    case (Some df)
    let ?d = "snd (load_dataframe_to_table (Some (db_schema x)) table df s)"
    have "set (stored_conversations (tables ?d)) \<subseteq> A"
    proof (cases "table = ''conversations''")
      case True
      with load_dataframe_stored [of "Some (db_schema x)" table df s]
      have "set (stored_conversations (tables ?d))
          \<subseteq> set (stored_conversations (tables s)) \<union> row_of (columns df) ` set (records df)"
        by simp
      moreover have "row_of (columns df) ` set (records df) \<subseteq> A"
        using assms(2) [of df] Some True by simp
      ultimately show ?thesis using q by blast
    next
      case False
      with load_dataframe_stored [of "Some (db_schema x)" table df s] q show ?thesis
        by simp
    qed
    with Some show ?thesis by simp
  qed
  have mg: "set (stored_conversations (tables (snd (case frames x ''conversation_parts'' of
                None \<Rightarrow> (Some (AttributeError ''conversation_parts''), s)
              | Some df \<Rightarrow>
                  merge_dataframe_into_table (db_schema x) ''conversation_parts'' df s)))) \<subseteq> A"
    using q by (simp add: merge_dataframe_stored split: option.splits)
  from g show "set (stored_conversations (tables (snd (g s)))) \<subseteq> A"
    unfolding replace_rows_def set_append set_simps
    by (elim UnE insertE emptyE) (simp_all only: del ld mg)
qed (rule assms(1))

lemma max_updated_at_ge:
  assumes "r \<in> set rows" and "r ''updated_at'' = JInt v"
  shows "v \<le> max_updated_at rows"
proof -
  have "v \<in> set (case r ''updated_at'' of JInt n \<Rightarrow> [n] | _ \<Rightarrow> [])"
    by (simp only: assms(2) json.case list.set insertI1)
  with assms(1) have "v \<in> set (updated_at_values rows)"
    unfolding updated_at_values_def set_concat set_map by blast
  then show ?thesis
    by (auto simp: max_updated_at_def)
qed

lemma delete_where_other:
  "table \<noteq> ''conversations'' \<Longrightarrow>
   stored_conversations (tables (snd (delete_where schema_name table col v d)))
     = stored_conversations (tables d)"
  by (auto simp: delete_where_def stored_conversations_def issue_def Let_def
        split: option.splits if_splits)

lemma load_dataframe_other:
  "table \<noteq> ''conversations'' \<Longrightarrow>
   stored_conversations (tables (snd (load_dataframe_to_table schema_opt table df d)))
     = stored_conversations (tables d)"
  by (cases schema_opt)
     (auto simp: load_dataframe_to_table_def copy_from_stdin_def stored_conversations_def
        issue_def Let_def split: option.splits if_splits)

lemma load_conversations_appends:
  assumes "load_dataframe_to_table (Some ''intercom'') ''conversations'' f d = (None, d')"
    and "records f \<noteq> []"
  shows "stored_conversations (tables d')
     = stored_conversations (tables d) @ map (row_of (columns f)) (records f)"
  using assms
  by (auto simp: load_dataframe_to_table_def copy_from_stdin_def stored_conversations_def
        issue_def Let_def split: option.splits if_splits)

lemma load_to_database_raised:
  assumes "load_to_database x d = (None, d')"
    and "db_schema x = ''intercom''"
    and "frames x ''conversations'' = Some f"
    and "rec \<in> set (records f)"
    and "row_of (columns f) rec ''updated_at'' = JInt v"
  shows "v \<le> max_updated_at (stored_conversations (tables d'))"
proof -
  define rest where "rest =
      replace_rows x ''conversation_contacts'' ''conversation_id''
      @ replace_rows x ''conversation_first_contact_replies'' ''conversation_id''
      @ replace_rows x ''conversation_ratings'' ''conversation_id''
      @ replace_rows x ''conversation_sla_applied'' ''conversation_id''
      @ replace_rows x ''conversation_sources'' ''conversation_id''
      @ replace_rows x ''conversation_statistics'' ''conversation_id''
      @ replace_rows x ''conversation_tags'' ''conversation_id''
      @ replace_rows x ''conversation_teammates'' ''conversation_id''
      @ [\<lambda>d. case frames x ''conversation_parts'' of
                None \<Rightarrow> (Some (AttributeError ''conversation_parts''), d)
              | Some df \<Rightarrow>
                  merge_dataframe_into_table (db_schema x) ''conversation_parts'' df d]"
  have l: "load_to_database x d = in_order (replace_rows x ''conversations'' ''id'' @ rest) d"
    by (simp add: load_to_database_def rest_def)
  obtain r1 d1 where first: "in_order (replace_rows x ''conversations'' ''id'') d = (r1, d1)"
    by (cases "in_order (replace_rows x ''conversations'' ''id'') d")
  with assms(1) l have r1: "r1 = None" and tl: "in_order rest d1 = (None, d')"
    by (auto simp: in_order_append split: option.splits)
  from first r1 assms(2,3) obtain d0 where
    "load_dataframe_to_table (Some ''intercom'') ''conversations'' f d0 = (None, d1)"
    by (auto simp: replace_rows_def split: prod.splits option.splits)
  moreover have "records f \<noteq> []" using assms(4) by auto
  ultimately have "stored_conversations (tables d1)
      = stored_conversations (tables d0) @ map (row_of (columns f)) (records f)"
    by (rule load_conversations_appends)
  with assms(4) have in1: "row_of (columns f) rec \<in> set (stored_conversations (tables d1))"
    by simp
  let ?Q = "\<lambda>s. stored_conversations (tables s) = stored_conversations (tables d1)"
  have "?Q (snd (in_order rest d1))"
  proof (rule in_order_invariant)
    fix g :: "database \<Rightarrow> exn option \<times> database" and s :: database
    assume g: "g \<in> set rest" and q: "?Q s"
    have ld: "stored_conversations (tables (snd (case frames x table of
             None \<Rightarrow> (Some (AttributeError table), s)
           | Some df \<Rightarrow> load_dataframe_to_table (Some (db_schema x)) table df s)))
        = stored_conversations (tables s)" if "table \<noteq> ''conversations''" for table
      using that by (simp add: load_dataframe_other split: option.splits)
    have mg: "stored_conversations (tables (snd (case frames x ''conversation_parts'' of
                None \<Rightarrow> (Some (AttributeError ''conversation_parts''), s)
              | Some df \<Rightarrow>
                  merge_dataframe_into_table (db_schema x) ''conversation_parts'' df s)))
        = stored_conversations (tables s)"
      by (simp add: merge_dataframe_stored split: option.splits)
    from g have "stored_conversations (tables (snd (g s))) = stored_conversations (tables s)"
      unfolding rest_def replace_rows_def set_append set_simps
      by (elim UnE insertE emptyE) (simp_all add: delete_where_other ld mg)
    with q show "?Q (snd (g s))" by simp
  qed simp
  with tl in1 have "row_of (columns f) rec \<in> set (stored_conversations (tables d'))"
    by simp
  from max_updated_at_ge [OF this assms(5)] show ?thesis .
qed

lemma watermark_stored: "watermark d = max_updated_at (stored_conversations (durable d))"
  by (cases "durable d (''intercom'', ''conversations'')")
     (simp_all add: watermark_def stored_conversations_def max_updated_at_def
        updated_at_values_def)

lemma stored_without_temporary:
  "stored_conversations (without_temporary ts) = stored_conversations ts"
  by (simp add: stored_conversations_def without_temporary_def)

lemma changed_after_max:
  assumes "changed_after start resp" and "counted resp \<noteq> []"
  shows "start < Max (set (map updated_at (counted resp)))"
proof -
  have "Max (set (map updated_at (counted resp))) \<in> set (map updated_at (counted resp))"
  proof (rule Max_in)
    show "set (map updated_at (counted resp)) \<noteq> {}"
      using assms(2) by (simp only: set_empty map_is_Nil_conv not_False_eq_True)
  qed (rule finite_set)
  with assms(1) show ?thesis
    by (auto simp: changed_after_def list_all_iff)
qed

lemma GetPayloads_outcome:
  assumes "conn s" and "GetPayloads ps s = (r, ps', s')"
  shows "conn s' \<and> tables (postgres s') = tables (postgres s) \<and>
         durable (postgres s') = durable (postgres s) \<and>
         follows (intercom s) (intercom s') \<and>
         (r \<noteq> None \<longrightarrow> ps' = ps) \<and>
         (not_an_error r \<longrightarrow>
            (\<exists>t. tables (postgres s) (''intercom'', ''conversations'') = Some t \<and>
               (\<forall>E. fst (get_conversation_max_updated_timestamp (max_updated_at (trows t)) 5 5
                          (intercom s)) = Inr (Some E) \<longrightarrow>
                    (\<exists>resp\<in>set (received (intercom s) (intercom s')).
                       counted resp \<noteq> [] \<and> E = Max (set (map updated_at (counted resp))))) \<and>
               (r = None \<longrightarrow>
                  (\<exists>E ids.
                     fst (get_conversation_max_updated_timestamp (max_updated_at (trows t)) 5 5
                            (intercom s)) = Inr (Some E) \<and>
                     ps' = Some (map (\<lambda>cid. new_payload cid (max_updated_at (trows t)) E
                                        ''intercom'') ids)))))"
proof (cases "tables (postgres s) (''intercom'', ''conversations'')")
  case None
  with assms show ?thesis
    by (auto simp: GetPayloads_def select_max_updated_at_def issue_def Let_def)
next
  case (Some t)
  let ?d = "issue (Select_max_updated_at ''intercom'') (postgres s)"
  let ?W = "max_updated_at (trows t)"
  have sel: "select_max_updated_at ''intercom'' (postgres s) = (Inr ?W, ?d)"
    using Some by (simp add: select_max_updated_at_def issue_def Let_def)
  obtain m a where m: "get_conversation_max_updated_timestamp ?W 5 5 (intercom s) = (m, a)"
    by (cases "get_conversation_max_updated_timestamp ?W 5 5 (intercom s)")
  from max_query_follows [OF m] have fa: "follows (intercom s) a"
    and ra: "\<forall>E. m = Inr (Some E) \<longrightarrow>
            (\<exists>resp\<in>set (received (intercom s) a).
               counted resp \<noteq> [] \<and> E = Max (set (map updated_at (counted resp))))"
    by auto
  show ?thesis
  proof (cases m)
    case (Inl ex)
    with assms sel m fa Some show ?thesis
      by (auto simp: GetPayloads_def issue_def)
  next
    case (Inr res)
    show ?thesis
    proof (cases res)
      case None
      with Inr assms sel m fa Some show ?thesis
        by (auto simp: GetPayloads_def issue_def)
    next
      case (Some E)
      obtain i a' where i:
        "get_conversation_ids_last_updated_between_timestamps ?W E 5 5 a = (i, a')"
        by (cases "get_conversation_ids_last_updated_between_timestamps ?W E 5 5 a")
      from search_ids_follows [OF i] have fa': "follows a a'" .
      have f: "follows (intercom s) a'" by (rule follows_trans [OF fa fa'])
      have "received (intercom s) a' = received (intercom s) a @ received a a'"
        by (rule received_trans [OF fa fa'])
      with ra Inr Some have ra': "\<exists>resp\<in>set (received (intercom s) a').
               counted resp \<noteq> [] \<and> E = Max (set (map updated_at (counted resp)))"
        by auto
      have s': "s' = s\<lparr>postgres := ?d, intercom := a'\<rparr>"
        and r: "r = (case i of Inl ex \<Rightarrow> Some ex | Inr ids \<Rightarrow> None)"
        and ps': "ps' = (case i of Inl ex \<Rightarrow> ps
                   | Inr ids \<Rightarrow> Some (map (\<lambda>cid. new_payload cid ?W E ''intercom'') ids))"
        using assms sel m Inr Some i
        by (auto simp: GetPayloads_def split: sum.splits)
      show ?thesis
      proof (intro conjI impI)
        show "\<exists>t. tables (postgres s) (''intercom'', ''conversations'') = Some t \<and>
               (\<forall>E. fst (get_conversation_max_updated_timestamp (max_updated_at (trows t)) 5 5
                          (intercom s)) = Inr (Some E) \<longrightarrow>
                    (\<exists>resp\<in>set (received (intercom s) (intercom s')).
                       counted resp \<noteq> [] \<and> E = Max (set (map updated_at (counted resp))))) \<and>
               (r = None \<longrightarrow>
                  (\<exists>E ids.
                     fst (get_conversation_max_updated_timestamp (max_updated_at (trows t)) 5 5
                            (intercom s)) = Inr (Some E) \<and>
                     ps' = Some (map (\<lambda>cid. new_payload cid (max_updated_at (trows t)) E
                                        ''intercom'') ids)))"
          using \<open>tables (postgres s) (''intercom'', ''conversations'') = Some t\<close> m Inr Some ra'
            s' r ps'
          by (cases i) auto
      qed (use assms(1) s' r ps' f in \<open>auto simp: issue_def split: sum.splits\<close>)
    qed
  qed
qed

lemma pre_execution_outcome:
  assumes "\<not> conn e"
    and "run_pre_execution_steps (IntercomConversationPipeline str_of e) = (r, p1)"
  shows "pipeline_steps p1 =
           [(''RetrieveApiData'', RetrieveApiData), (''ParseApiData'', ParseApiData str_of),
            (''LoadToDatabase'', LoadToDatabase)]"
    and "post_execution_steps p1 = [(''CommitTransaction'', CommitTransaction)]"
    and "conn (env p1) \<longrightarrow> tables (postgres (env p1)) = durable (postgres e) \<and>
           durable (postgres (env p1)) = durable (postgres e) \<and>
           follows (intercom e) (intercom (env p1))"
    and "r \<noteq> None \<longrightarrow> payloads p1 = None"
    and "r = None \<longrightarrow> conn (env p1) \<and>
           (\<exists>E ids. resolved_end e = Some E \<and>
              payloads p1 = Some (map (\<lambda>cid. new_payload cid (watermark (postgres e)) E
                                          ''intercom'') ids))"
    and "conn (env p1) \<and> not_an_error r \<longrightarrow>
           (\<forall>E. resolved_end e = Some E \<longrightarrow>
              (\<exists>resp\<in>set (received (intercom e) (intercom (env p1))).
                 counted resp \<noteq> [] \<and> E = Max (set (map updated_at (counted resp)))))"
proof -
  let ?P = "IntercomConversationPipeline str_of e"
  let ?e1 = "e\<lparr>postgres := (postgres e)\<lparr>tables := durable (postgres e)\<rparr>, conn := True\<rparr>"
  obtain r2 ps2 s2 where gp: "GetPayloads None ?e1 = (r2, ps2, s2)"
    by (cases "GetPayloads None ?e1")
  note out = GetPayloads_outcome [OF _ gp, simplified]
  have run: "run_pre_execution_steps ?P =
    (case connect_raises (postgres e) of
       Some ex \<Rightarrow>
         (Some ex, ?P\<lparr>logged := [StepsToExecute PreExecution 2,
                                   StartingStep PreExecution ''GetDatabaseConnection''],
                       env := e\<lparr>postgres := postgres e\<rparr>\<rparr>)
     | None \<Rightarrow>
         (r2, ?P\<lparr>logged := [StepsToExecute PreExecution 2,
                              StartingStep PreExecution ''GetDatabaseConnection'',
                              StartingStep PreExecution ''GetPayloads'']
                           @ (if r2 = None then [ProcessedAllSteps PreExecution] else []),
                  payloads := ps2, env := s2\<rparr>))"
    using gp
    by (cases r2)
       (simp_all add: run_pre_execution_steps_def run_phase_def IntercomConversationPipeline_def
          GetDatabaseConnection_def connect_def log_info_def Let_def split: option.splits)
  have w: "watermark (postgres e) = max_updated_at (trows t)"
    if "durable (postgres e) (''intercom'', ''conversations'') = Some t" for t
    using that by (simp add: watermark_def)
  have res: "r2 = None \<Longrightarrow> \<exists>E ids. resolved_end e = Some E \<and>
      ps2 = Some (map (\<lambda>cid. new_payload cid (watermark (postgres e)) E ''intercom'') ids)"
    using out w by (auto simp: resolved_end_def)
  have rec: "not_an_error r2 \<Longrightarrow> resolved_end e = Some E \<Longrightarrow>
      \<exists>resp\<in>set (received (intercom e) (intercom s2)).
         counted resp \<noteq> [] \<and> E = Max (set (map updated_at (counted resp)))" for E
  proof -
    assume q: "not_an_error r2" and E: "resolved_end e = Some E"
    from out q obtain t where t: "durable (postgres e) (''intercom'', ''conversations'') = Some t"
      and all: "\<forall>E. fst (get_conversation_max_updated_timestamp (max_updated_at (trows t)) 5 5
                          (intercom e)) = Inr (Some E) \<longrightarrow>
                    (\<exists>resp\<in>set (received (intercom e) (intercom s2)).
                       counted resp \<noteq> [] \<and> E = Max (set (map updated_at (counted resp))))"
      by auto
    from E have "fst (get_conversation_max_updated_timestamp (watermark (postgres e)) 5 5
                          (intercom e)) = Inr (Some E)"
      by (auto simp: resolved_end_def split: sum.splits option.splits)
    with all w [OF t] show ?thesis by simp
  qed
  show "pipeline_steps p1 =
           [(''RetrieveApiData'', RetrieveApiData), (''ParseApiData'', ParseApiData str_of),
            (''LoadToDatabase'', LoadToDatabase)]"
    using assms(2) unfolding run
    by (auto simp: IntercomConversationPipeline_def split: option.splits)
  show "post_execution_steps p1 = [(''CommitTransaction'', CommitTransaction)]"
    using assms(2) unfolding run
    by (auto simp: IntercomConversationPipeline_def split: option.splits)
  show "conn (env p1) \<longrightarrow> tables (postgres (env p1)) = durable (postgres e) \<and>
           durable (postgres (env p1)) = durable (postgres e) \<and>
           follows (intercom e) (intercom (env p1))"
    using assms out unfolding run
    by (auto simp: IntercomConversationPipeline_def split: option.splits)
  show "r \<noteq> None \<longrightarrow> payloads p1 = None"
    using assms(2) out unfolding run
    by (auto simp: IntercomConversationPipeline_def split: option.splits)
  show "r = None \<longrightarrow> conn (env p1) \<and>
           (\<exists>E ids. resolved_end e = Some E \<and>
              payloads p1 = Some (map (\<lambda>cid. new_payload cid (watermark (postgres e)) E
                                          ''intercom'') ids))"
    using assms(2) out res unfolding run
    by (auto simp: IntercomConversationPipeline_def split: option.splits)
  show "conn (env p1) \<and> not_an_error r \<longrightarrow>
           (\<forall>E. resolved_end e = Some E \<longrightarrow>
              (\<exists>resp\<in>set (received (intercom e) (intercom (env p1))).
                 counted resp \<noteq> [] \<and> E = Max (set (map updated_at (counted resp)))))"
  proof (cases "connect_raises (postgres e)")
    case (Some ex)
    with assms show ?thesis unfolding run
      by (auto simp: IntercomConversationPipeline_def)
  next
    case None
    with assms(2) have "r = r2" "env p1 = s2" unfolding run
      by (auto simp: IntercomConversationPipeline_def)
    with rec show ?thesis by auto
  qed
qed

lemma commit_after:
  assumes "post_execution_steps p = [(''CommitTransaction'', CommitTransaction)]"
    and "fst (run_post_execution_steps p) = None"
  shows "conn (env p) \<and>
         intercom (env (snd (run_post_execution_steps p))) = intercom (env p) \<and>
         durable (postgres (env (snd (run_post_execution_steps p))))
           = without_temporary (tables (postgres (env p)))"
  using assms
  by (auto simp: run_post_execution_steps_def run_phase_def CommitTransaction_def commit_def
        issue_def log_info_def Let_def split: if_splits)

lemma execute_success:
  assumes "fst (execute p) = None"
    and "post_execution_steps (snd (pre_execution_and_payloads p))
           = [(''CommitTransaction'', CommitTransaction)]"
  shows "not_an_error (fst (pre_execution_and_payloads p)) \<and>
         conn (env (snd (pre_execution_and_payloads p))) \<and>
         intercom (env (snd (execute p))) = intercom (env (snd (pre_execution_and_payloads p))) \<and>
         durable (postgres (env (snd (execute p))))
           = without_temporary (tables (postgres (env (snd (pre_execution_and_payloads p)))))"
proof -
  obtain r1 p1 where pre: "pre_execution_and_payloads p = (r1, p1)"
    by (cases "pre_execution_and_payloads p")
  note ex = execute_cases [OF pre]
  have post: "post_execution_steps p1 = [(''CommitTransaction'', CommitTransaction)]"
    using assms(2) pre by simp
  show ?thesis
  proof (cases r1)
    case None
    obtain r2 p2 where rp: "run_post_execution_steps p1 = (r2, p2)"
      by (cases "run_post_execution_steps p1")
    have "r2 = None"
      using assms(1) fst_handle_unexpected [of _ p2] unfolding ex
      by (cases r2) (simp_all add: None rp)
    with commit_after [OF post] rp ex None pre show ?thesis by simp
  next
    case (Some e)
    show ?thesis
    proof (cases "is_stop_pipeline e")
      case False
      with assms(1) fst_handle_unexpected [of e p1] Some show ?thesis
        unfolding ex by simp
    next
      case True
      then obtain msg where e: "e = StopPipelineException msg" by (cases e) simp_all
      let ?p = "log_info (StoppingPipelineEarly msg) p1"
      have post': "post_execution_steps ?p = [(''CommitTransaction'', CommitTransaction)]"
        using post by (simp add: log_info_def)
      obtain r2 p2 where rp: "run_post_execution_steps ?p = (r2, p2)"
        by (cases "run_post_execution_steps ?p")
      have "r2 = None"
        using assms(1) fst_handle_unexpected [of _ p2] unfolding ex
        by (cases r2) (simp_all add: Some e rp)
      with commit_after [OF post'] rp ex Some e pre show ?thesis
        by (simp add: log_info_def)
    qed
  qed
qed

lemma RetrieveApiData_outcome:
  assumes "RetrieveApiData y s = (r, y', s')"
  shows "frames y' = frames y \<and> end_timestamp y' = end_timestamp y \<and>
         db_schema y' = db_schema y \<and> postgres s' = postgres s \<and>
         follows (intercom s) (intercom s') \<and>
         (r = None \<longrightarrow>
            (\<exists>resp\<in>set (received (intercom s) (intercom s')). api_data y' = Some (body resp)))"
proof -
  obtain res a where g: "get_conversation_details (conversation_id y) 5 5 (intercom s) = (res, a)"
    by (cases "get_conversation_details (conversation_id y) 5 5 (intercom s)")
  from conversation_details_follows [OF g] g assms show ?thesis
    by (cases res) (auto simp: RetrieveApiData_def)
qed

lemma ParseApiData_frame:
  assumes "ParseApiData str_of y s = (None, y', s')"
  shows "s' = s \<and> end_timestamp y' = end_timestamp y \<and> db_schema y' = db_schema y \<and>
         api_data y' = api_data y \<and>
         (\<exists>d j v kvs. api_data y = Some (Document d) \<and> item d ''updated_at'' = Inr j \<and>
            capped (Inr j) (end_timestamp y) = Inr v \<and>
            frames y' ''conversations'' = Some (frame_of [kvs]) \<and>
            row_of (map fst kvs) (map snd kvs) ''updated_at'' = v)"
proof -
  from assms obtain d where d: "api_data y = Some (Document d)"
    by (auto simp: ParseApiData_def split: option.splits body.splits)
  with assms have "parse_api_data str_of d y = (None, y')" and "s' = s"
    by (auto simp: ParseApiData_def split: prod.splits)
  with parse_api_data_frame [OF this(1)] d show ?thesis by auto
qed

lemma ParseApiData_env: "snd (snd (ParseApiData str_of y s)) = s"
  by (auto simp: ParseApiData_def split: option.splits body.splits prod.splits)

lemma LoadToDatabase_keeps:
  "fst (snd (LoadToDatabase y s)) = y \<and>
   intercom (snd (snd (LoadToDatabase y s))) = intercom s \<and>
   postgres (snd (snd (LoadToDatabase y s))) = snd (load_to_database y (postgres s)) \<and>
   fst (LoadToDatabase y s) = fst (load_to_database y (postgres s))"
  by (cases "load_to_database y (postgres s)") (simp add: LoadToDatabase_def)

lemma load_to_database_frame:
  assumes "fst (load_to_database x d) = None"
  shows "frames x ''conversations'' \<noteq> None"
proof
  assume n: "frames x ''conversations'' = None"
  obtain r0 d0 where "delete_where (db_schema x) ''conversations'' ''id''
      (JStr (conversation_id x)) d = (r0, d0)"
    by (cases "delete_where (db_schema x) ''conversations'' ''id'' (JStr (conversation_id x)) d")
  with n have "fst (load_to_database x d) \<noteq> None"
    by (cases r0) (simp_all add: load_to_database_def replace_rows_def)
  with assms show False by simp
qed

lemma frame_of_single:
  "columns (frame_of [kvs]) = map fst kvs \<and> records (frame_of [kvs]) = [map snd kvs]"
  by (simp add: frame_of_def)



text \<open>
  Claim C5, as amended. For a run of the conversation pipeline on a fresh pipeline object
  (\<open>conn\<close> not yet assigned) that returns normally:
  \<^item> every committed row of \<open>conversations\<close> is a row that was committed before the run, or
    its \<open>updated_at\<close> is at most the end the run resolved;
  \<^item> every payload the pre-execution steps create starts at the watermark (the committed
    maximum of \<open>updated_at\<close>) and ends at the resolved end;
  \<^item> when every answer the run received reports only conversations changed after the
    watermark, the watermark after the run is not below the watermark before it, and the
    resolved end is above the watermark the run started from.
\<close>

theorem watermark_advances_within_window:
  assumes "\<not> conn e"
    and "fst (execute (IntercomConversationPipeline str_of e)) = None"
  shows
    "(\<forall>r\<in>set (stored_conversations
                (durable (postgres (env (snd (execute (IntercomConversationPipeline str_of e))))))).
        r \<in> set (stored_conversations (durable (postgres e))) \<or>
        (\<exists>E v. resolved_end e = Some E \<and> as_int (r ''updated_at'') = Some v \<and> v \<le> E))
     \<and> (\<forall>ps. payloads (snd (run_pre_execution_steps (IntercomConversationPipeline str_of e)))
                = Some ps \<longrightarrow>
          (\<exists>E. resolved_end e = Some E \<and>
             (\<forall>x\<in>set ps. start_timestamp x = watermark (postgres e) \<and> end_timestamp x = E)))
     \<and> (list_all (changed_after (watermark (postgres e)))
           (received (intercom e)
              (intercom (env (snd (execute (IntercomConversationPipeline str_of e)))))) \<longrightarrow>
          watermark (postgres e)
            \<le> watermark (postgres (env (snd (execute (IntercomConversationPipeline str_of e)))))
          \<and> (\<forall>E. resolved_end e = Some E \<longrightarrow> watermark (postgres e) < E))"
proof -
  let ?P = "IntercomConversationPipeline str_of e"
  let ?W = "watermark (postgres e)"
  let ?r0 = "intercom e"
  obtain r p1 where pre: "run_pre_execution_steps ?P = (r, p1)"
    by (cases "run_pre_execution_steps ?P")
  note po = pre_execution_outcome [OF assms(1) pre]
  define re where "re = fst (pre_execution_and_payloads ?P)"
  define pe where "pe = snd (pre_execution_and_payloads ?P)"
  have pp: "(re, pe) = (case r of None \<Rightarrow> run_all_payloads p1 | Some ex \<Rightarrow> (Some ex, p1))"
    by (simp add: re_def pe_def pre_execution_and_payloads_def pre split: option.splits)
  have post: "post_execution_steps pe = [(''CommitTransaction'', CommitTransaction)]"
  proof (cases r)
    case None
    with pp have "pe = snd (run_all_payloads p1)" by (metis option.simps(4) snd_conv)
    with post_execution_steps_all_payloads [of p1] po(2) show ?thesis by simp
  next
    case (Some ex)
    with pp po(2) show ?thesis by simp
  qed
  note es = execute_success [OF assms(2) post [unfolded pe_def], folded re_def pe_def]
  define A where "A = set (stored_conversations (durable (postgres e))) \<union>
      {r. \<exists>E v. resolved_end e = Some E \<and> as_int (r ''updated_at'') = Some v \<and> v \<le> E}"
  have K1: "set (stored_conversations (tables (postgres (env pe)))) \<subseteq> A"
  proof (cases r)
    case (Some ex)
    with pp have "pe = p1" by simp
    with es po(3) show ?thesis by (auto simp: A_def)
  next
    case None
    with pp have run: "run_all_payloads p1 = (re, pe)" by simp
    from po(5) None obtain E ids where E: "resolved_end e = Some E"
      and ps: "payloads p1 = Some (map (\<lambda>cid. new_payload cid ?W E ''intercom'') ids)"
      and c1: "conn (env p1)"
      by auto
    let ?I = "\<lambda>s. set (stored_conversations (tables (postgres s))) \<subseteq> A"
    let ?J = "\<lambda>y. end_timestamp y = E \<and>
        (\<forall>f. frames y ''conversations'' = Some f \<longrightarrow> row_of (columns f) ` set (records f) \<subseteq> A)"
    let ?K = "\<lambda>y s. ?J y \<and> ?I s"
    have "?I (env (snd (run_all_payloads p1)))"
    proof (rule run_all_payloads_invariant [where I = ?I and J = ?J and K = ?K])
      fix name and step :: "(payload, env) payload_step" and y :: payload and s :: env
      assume mem: "(name, step) \<in> set (pipeline_steps p1)" and k: "?K y s"
      then have i: "?I s" and j: "?J y" by auto
      from mem po(1) consider "step = RetrieveApiData" | "step = ParseApiData str_of"
        | "step = LoadToDatabase" by auto
      then show "(fst (step y s) = None \<longrightarrow> ?K (fst (snd (step y s))) (snd (snd (step y s)))) \<and>
          (not_an_error (fst (step y s)) \<longrightarrow> ?I (snd (snd (step y s))))"
      proof cases
        case 1
        obtain r' y' s' where st: "RetrieveApiData y s = (r', y', s')"
          by (cases "RetrieveApiData y s")
        from RetrieveApiData_outcome [OF st] i j st 1 show ?thesis by simp
      next
        case 2
        have "?I (snd (snd (step y s)))" using i by (simp add: 2 ParseApiData_env)
        moreover have "?J (fst (snd (step y s)))" if none: "fst (step y s) = None"
        proof -
          obtain y' s' where st: "ParseApiData str_of y s = (None, y', s')"
            using none 2 by (cases "ParseApiData str_of y s") auto
          from ParseApiData_frame [OF st] obtain j' v kvs where
            fr: "end_timestamp y' = end_timestamp y"
              "capped (Inr j') (end_timestamp y) = Inr v"
              "frames y' ''conversations'' = Some (frame_of [kvs])"
              "row_of (map fst kvs) (map snd kvs) ''updated_at'' = v"
            by auto
          from capped_value [OF fr(2)] obtain n where "as_int v = Some (min n (end_timestamp y))"
            by auto
          then have "row_of (map fst kvs) (map snd kvs) \<in> A"
            using fr(4) E j by (auto simp: A_def)
          with fr st 2 j show ?thesis by (simp add: frame_of_single)
        qed
        ultimately show ?thesis by simp
      next
        case 3
        have "set (stored_conversations (tables (snd (load_to_database y (postgres s))))) \<subseteq> A"
          using i j by (intro load_to_database_subset) auto
        with LoadToDatabase_keeps [of y s] j 3 show ?thesis by simp
      qed
    next
      show "?I (env p1)" using c1 po(3) by (simp add: A_def)
      show "\<forall>q. payloads p1 = Some q \<longrightarrow> (\<forall>x\<in>set q. ?J x)"
        using ps by (auto simp: new_payload_def)
      show "not_an_error (fst (run_all_payloads p1))" using es run by simp
    qed auto
    with run show ?thesis by simp
  qed
  have K2: "?W \<le> max_updated_at (stored_conversations (tables (postgres (env pe))))
      \<and> (\<forall>E. resolved_end e = Some E \<longrightarrow> ?W < E)"
    if H: "list_all (changed_after ?W) (received ?r0 (intercom (env pe)))"
  proof (cases r)
    case (Some ex)
    with pp have pe: "pe = p1" "re = r" by simp_all
    have "?W < E" if E: "resolved_end e = Some E" for E
    proof -
      from po(6) es pe E obtain resp where "resp \<in> set (received ?r0 (intercom (env p1)))"
        "counted resp \<noteq> []" "E = Max (set (map updated_at (counted resp)))"
        by auto
      with H pe changed_after_max [of ?W resp] show ?thesis
        by (auto simp: list_all_iff)
    qed
    with pe es po(3) show ?thesis by (simp add: watermark_stored)
  next
    case None
    with pp have run: "run_all_payloads p1 = (re, pe)" by simp
    from po(5) None obtain E ids where E: "resolved_end e = Some E"
      and ps: "payloads p1 = Some (map (\<lambda>cid. new_payload cid ?W E ''intercom'') ids)"
      and c1: "conn (env p1)"
      by auto
    from po(3) c1 have f1: "follows ?r0 (intercom (env p1))"
      and t1: "tables (postgres (env p1)) = durable (postgres e)" by auto
    from po(6) c1 None E obtain resp1 where resp1:
      "resp1 \<in> set (received ?r0 (intercom (env p1)))" "counted resp1 \<noteq> []"
      "E = Max (set (map updated_at (counted resp1)))"
      by auto
    let ?ok = "\<lambda>s. list_all (changed_after ?W) (received ?r0 (intercom s))"
    let ?I = "\<lambda>s. follows ?r0 (intercom s) \<and>
        (?ok s \<longrightarrow> ?W < E \<and>
           ?W \<le> max_updated_at (stored_conversations (tables (postgres s))))"
    let ?J = "\<lambda>y. end_timestamp y = E \<and> db_schema y = ''intercom'' \<and> api_data y = None \<and>
        frames y ''conversations'' = None"
    let ?K = "\<lambda>y s. ?I s \<and> end_timestamp y = E \<and> db_schema y = ''intercom'' \<and>
        (\<forall>d. api_data y = Some (Document d) \<longrightarrow>
           (\<exists>resp\<in>set (received ?r0 (intercom s)). body resp = Document d)) \<and>
        (\<forall>f. frames y ''conversations'' = Some f \<longrightarrow> ?ok s \<longrightarrow>
           (\<exists>rec v. rec \<in> set (records f) \<and>
              row_of (columns f) rec ''updated_at'' = JInt v \<and> ?W \<le> v))"
    have "?I (env (snd (run_all_payloads p1)))"
    proof (rule run_all_payloads_invariant [where I = ?I and J = ?J and K = ?K])
      fix name and step :: "(payload, env) payload_step" and y :: payload and s :: env
      assume mem: "(name, step) \<in> set (pipeline_steps p1)" and k: "?K y s"
      then have i: "?I s" by simp
      from mem po(1) consider "step = RetrieveApiData" | "step = ParseApiData str_of"
        | "step = LoadToDatabase" by auto
      then show "(fst (step y s) = None \<longrightarrow> ?K (fst (snd (step y s))) (snd (snd (step y s)))) \<and>
          (not_an_error (fst (step y s)) \<longrightarrow> ?I (snd (snd (step y s))))"
      proof cases
        case 1
        obtain r' y' s' where st: "RetrieveApiData y s = (r', y', s')"
          by (cases "RetrieveApiData y s")
        note out = RetrieveApiData_outcome [OF st]
        from out have fs: "follows (intercom s) (intercom s')" by simp
        from i have f0: "follows ?r0 (intercom s)" by simp
        have f: "follows ?r0 (intercom s')" by (rule follows_trans [OF f0 fs])
        have rc: "received ?r0 (intercom s') = received ?r0 (intercom s) @ received (intercom s) (intercom s')"
          by (rule received_trans [OF f0 fs])
        then have ok: "?ok s' \<Longrightarrow> ?ok s" by simp
        have i': "?I s'"
        proof (intro conjI impI)
          assume "?ok s'"
          with ok i out show "?W < E"
            "?W \<le> max_updated_at (stored_conversations (tables (postgres s')))"
            by simp_all
        qed (use f in auto)
        have "?K y' s'" if none: "r' = None"
        proof -
          from out none obtain resp where resp: "resp \<in> set (received (intercom s) (intercom s'))"
            "api_data y' = Some (body resp)" by auto
          have a: "\<forall>d. api_data y' = Some (Document d) \<longrightarrow>
              (\<exists>resp\<in>set (received ?r0 (intercom s')). body resp = Document d)"
            using resp rc by auto
          have b: "\<forall>f. frames y' ''conversations'' = Some f \<longrightarrow> ?ok s' \<longrightarrow>
              (\<exists>rec v. rec \<in> set (records f) \<and>
                 row_of (columns f) rec ''updated_at'' = JInt v \<and> ?W \<le> v)"
            using k ok out by simp
          from i' a b k out show ?thesis by simp
        qed
        with i' st 1 show ?thesis by simp
      next
        case 2
        have i': "?I (snd (snd (step y s)))" using i by (simp add: 2 ParseApiData_env)
        moreover have "?K (fst (snd (step y s))) (snd (snd (step y s)))"
          if none: "fst (step y s) = None"
        proof -
          obtain y' s' where st: "ParseApiData str_of y s = (None, y', s')"
            using none 2 by (cases "ParseApiData str_of y s") auto
          from ParseApiData_frame [OF st] obtain d j' v kvs where
            fr: "s' = s" "end_timestamp y' = end_timestamp y" "db_schema y' = db_schema y"
              "api_data y' = api_data y" "api_data y = Some (Document d)"
              "item d ''updated_at'' = Inr j'"
              "capped (Inr j') (end_timestamp y) = Inr v"
              "frames y' ''conversations'' = Some (frame_of [kvs])"
              "row_of (map fst kvs) (map snd kvs) ''updated_at'' = v"
            by auto
          have fc: "\<exists>u. v = JInt u \<and> ?W \<le> u" if ok: "?ok s"
          proof -
            from k fr(5) obtain resp where "resp \<in> set (received ?r0 (intercom s))"
              "body resp = Document d" by auto
            with ok have "changed_after ?W resp" by (simp add: list_all_iff)
            with \<open>body resp = Document d\<close> fr(6) capped_value [OF fr(7)]
            obtain m where m: "j' = JInt m" "?W < m"
              by (cases j') (auto simp: changed_after_def)
            with capped_value [OF fr(7)] have "v = JInt (min m (end_timestamp y))" by auto
            moreover from i ok have "?W < E" by simp
            ultimately show ?thesis using m k by auto
          qed
          have b: "\<forall>f. frames y' ''conversations'' = Some f \<longrightarrow> ?ok s \<longrightarrow>
              (\<exists>rec v. rec \<in> set (records f) \<and>
                 row_of (columns f) rec ''updated_at'' = JInt v \<and> ?W \<le> v)"
            using fc fr(8,9) by (auto simp: frame_of_single)
          from i b k fr st 2 show ?thesis by simp
        qed
        ultimately show ?thesis by simp
      next
        case 3
        note kk = LoadToDatabase_keeps [of y s]
        have "?I (snd (snd (step y s)))" if q: "not_an_error (fst (step y s))"
        proof (cases "fst (load_to_database y (postgres s))")
          case (Some ex)
          with load_to_database_raises [of y "postgres s" ex] q kk 3 show ?thesis by simp
        next
          case None
          then obtain d' where l: "load_to_database y (postgres s) = (None, d')"
            by (cases "load_to_database y (postgres s)") simp
          from load_to_database_frame [OF None] obtain f where
            f: "frames y ''conversations'' = Some f" by auto
          have "?W \<le> max_updated_at (stored_conversations (tables d'))" if ok: "?ok s"
          proof -
            from k f ok obtain rec v where rec: "rec \<in> set (records f)"
              "row_of (columns f) rec ''updated_at'' = JInt v" "?W \<le> v"
              by blast
            from load_to_database_raised [OF l _ f rec(1,2)] k rec(3) show ?thesis by simp
          qed
          with kk l i 3 show ?thesis by simp
        qed
        moreover have "?K (fst (snd (step y s))) (snd (snd (step y s)))"
          if none: "fst (step y s) = None"
        proof -
          from none have "not_an_error (fst (step y s))" by simp
          with calculation have "?I (snd (snd (step y s)))" by simp
          with k kk 3 show ?thesis by simp
        qed
        ultimately show ?thesis by simp
      qed
    next
      show "?I (env p1)"
      proof (intro conjI impI)
        assume "?ok (env p1)"
        with resp1 changed_after_max [of ?W resp1] show "?W < E"
          by (auto simp: list_all_iff)
        show "?W \<le> max_updated_at (stored_conversations (tables (postgres (env p1))))"
          using t1 by (simp add: watermark_stored)
      qed (use f1 in auto)
      show "\<forall>q. payloads p1 = Some q \<longrightarrow> (\<forall>x\<in>set q. ?J x)"
        using ps by (auto simp: new_payload_def)
      show "not_an_error (fst (run_all_payloads p1))" using es run by simp
    qed auto
    with run H E show ?thesis by simp
  qed
  have after: "stored_conversations (durable (postgres (env (snd (execute ?P)))))
      = stored_conversations (tables (postgres (env pe)))"
    using es by (simp add: stored_without_temporary)
  have remote: "intercom (env (snd (execute ?P))) = intercom (env pe)"
    using es by simp
  have part1: "\<forall>r\<in>set (stored_conversations (durable (postgres (env (snd (execute ?P)))))).
        r \<in> set (stored_conversations (durable (postgres e))) \<or>
        (\<exists>E v. resolved_end e = Some E \<and> as_int (r ''updated_at'') = Some v \<and> v \<le> E)"
    using K1 unfolding after A_def by blast
  have part2: "\<forall>ps. payloads (snd (run_pre_execution_steps ?P)) = Some ps \<longrightarrow>
          (\<exists>E. resolved_end e = Some E \<and>
             (\<forall>x\<in>set ps. start_timestamp x = ?W \<and> end_timestamp x = E))"
    using po(4,5) pre by (cases r) (auto simp: new_payload_def)
  have part3: "list_all (changed_after ?W) (received ?r0 (intercom (env (snd (execute ?P))))) \<longrightarrow>
          ?W \<le> watermark (postgres (env (snd (execute ?P))))
          \<and> (\<forall>E. resolved_end e = Some E \<longrightarrow> ?W < E)"
    using K2 unfolding remote
    by (simp add: watermark_stored [of "postgres (env (snd (execute ?P)))"] after)
  from part1 part2 part3 show ?thesis by (intro conjI)
qed


lemma watermark_lagging: "watermark (postgres lagging_env) = 100"
  by (simp add: watermark_def lagging_env_def sample_store_def sample_tables_def
        max_updated_at_def updated_at_values_def stored_conversation_def row_of_def)

lemma watermark_stale: "watermark (postgres stale_env) = 100"
  by (simp add: watermark_def stale_env_def sample_store_def sample_tables_def
        max_updated_at_def updated_at_values_def stored_conversation_def row_of_def)

lemma resolved_end_lagging: "resolved_end lagging_env = Some 150"
  unfolding resolved_end_def watermark_lagging
  by (simp add: lagging_env_def lagging_remote_def found_def api_eval)

lemmas conversation_eval =
  IntercomConversationPipeline_def GetDatabaseConnection_def GetPayloads_def
  CommitTransaction_def RetrieveApiData_def ParseApiData_def LoadToDatabase_def
  connect_def commit_def select_max_updated_at_def delete_where_def new_payload_def
  parse_api_data_def load_to_database_def replace_rows_def assign_frame_def unless_none_def
  conversations_rows_def capped_def frame_of_def without_temporary_def
  max_updated_at_def updated_at_values_def stored_conversations_def watermark_def
  resolved_end_def received_def requests_sent_def changed_after_def counted_def

lemma execute_lagging:
  "\<exists>p. execute (IntercomConversationPipeline blank_str lagging_env) = (None, p) \<and>
       watermark (postgres (env p)) = 120 \<and>
       resolved_end ((env p)\<lparr>conn := False\<rparr>) = Some 130 \<and>
       map (\<lambda>r. r ''updated_at'') (stored_conversations (durable (postgres (env p))))
         = [JInt 100, JInt 120] \<and>
       list_all (changed_after 100) (received (intercom lagging_env) (intercom (env p))) \<and>
       length (received (intercom lagging_env) (intercom (env p))) = 4"
  by (simp add: engine_eval conversation_eval database_eval api_eval
        lagging_env_def lagging_remote_def found_def unavailable_def conversation_document_def
        sample_store_def sample_tables_def stored_conversation_def conversation_columns_def)

lemma execute_stale:
  "\<exists>p. execute (IntercomConversationPipeline blank_str stale_env) = (None, p) \<and>
       watermark (postgres (env p)) = 90 \<and>
       map (\<lambda>r. (r ''id'', r ''updated_at'')) (stored_conversations (durable (postgres (env p))))
         = [(JStr ''a'', JInt 90)]"
  by (simp add: engine_eval conversation_eval database_eval api_eval
        stale_env_def stale_remote_def found_def unavailable_def conversation_document_def
        sample_store_def sample_tables_def stored_conversation_def conversation_columns_def)

lemma pre_execution_lagging:
  "map (\<lambda>x. (start_timestamp x, end_timestamp x))
     (the (payloads (snd (run_pre_execution_steps
        (IntercomConversationPipeline blank_str lagging_env))))) = [(100, 150)]"
  by (simp add: engine_eval conversation_eval database_eval api_eval
        lagging_env_def lagging_remote_def found_def
        sample_store_def sample_tables_def stored_conversation_def)

theorem watermark_advances_within_window_witness:
  "fst (execute (IntercomConversationPipeline blank_str lagging_env)) = None
   \<and> resolved_end lagging_env = Some 150
   \<and> watermark (postgres lagging_env) = 100
   \<and> list_all (changed_after 100)
       (received (intercom lagging_env)
          (intercom (env (snd (execute (IntercomConversationPipeline blank_str lagging_env))))))
   \<and> length (received (intercom lagging_env)
          (intercom (env (snd (execute (IntercomConversationPipeline blank_str lagging_env))))))
       = 4
   \<and> watermark (postgres (env (snd (execute
          (IntercomConversationPipeline blank_str lagging_env))))) = 120
   \<and> map (\<lambda>r. r ''updated_at'')
        (stored_conversations (durable (postgres (env (snd (execute
          (IntercomConversationPipeline blank_str lagging_env)))))))
       = [JInt 100, JInt 120]
   \<and> map (\<lambda>x. (start_timestamp x, end_timestamp x))
        (the (payloads (snd (run_pre_execution_steps
           (IntercomConversationPipeline blank_str lagging_env))))) = [(100, 150)]"
proof -
  from execute_lagging obtain p where
    run: "execute (IntercomConversationPipeline blank_str lagging_env) = (None, p)"
    and after: "watermark (postgres (env p)) = 120"
      "map (\<lambda>r. r ''updated_at'') (stored_conversations (durable (postgres (env p))))
         = [JInt 100, JInt 120]"
      "list_all (changed_after 100) (received (intercom lagging_env) (intercom (env p)))"
      "length (received (intercom lagging_env) (intercom (env p))) = 4"
    by (elim exE conjE) (rule that; assumption)
  have fresh: "\<not> conn lagging_env" by (simp add: lagging_env_def)
  have ok: "fst (execute (IntercomConversationPipeline blank_str lagging_env)) = None"
    using run by simp
  from watermark_advances_within_window [OF fresh ok]
    run after watermark_lagging resolved_end_lagging pre_execution_lagging
  show ?thesis by simp
qed

text \<open>
  Claim C5 has the watermark never decrease and the end resolved by run \<open>K + 1\<close> never be
  less than the end of run \<open>K\<close>. Neither holds of the code alone: both rest on what the
  service answers.

  A stale document: the run starts from the watermark 100, the search finds the stored
  conversation \<open>a\<close> changed at 150, and the document fetched for \<open>a\<close> still says 90. The
  run replaces the row of \<open>a\<close> by one with \<open>updated_at\<close> 90 and commits: the watermark
  falls from 100 to 90.

  A lagging search index: run \<open>K\<close> starts from the watermark 100 and resolves the end 150
  from conversation \<open>x\<close>, but the search for the window finds only \<open>y\<close>, changed at 120,
  which the run commits; the watermark becomes 120. Run \<open>K + 1\<close> starts from 120 and the
  first page of the search now shows \<open>z\<close>, changed at 130: the end it resolves is 130,
  below 150, although every answer run \<open>K\<close> received reports only conversations changed
  after its start.
\<close>

theorem watermark_decreases_counterexample:
  "watermark (postgres stale_env) = 100
   \<and> fst (execute (IntercomConversationPipeline blank_str stale_env)) = None
   \<and> watermark (postgres (env (snd (execute
          (IntercomConversationPipeline blank_str stale_env))))) = 90
   \<and> resolved_end lagging_env = Some 150
   \<and> fst (execute (IntercomConversationPipeline blank_str lagging_env)) = None
   \<and> list_all (changed_after 100)
       (received (intercom lagging_env)
          (intercom (env (snd (execute (IntercomConversationPipeline blank_str lagging_env))))))
   \<and> watermark (postgres (env (snd (execute
          (IntercomConversationPipeline blank_str lagging_env))))) = 120
   \<and> resolved_end ((env (snd (execute
          (IntercomConversationPipeline blank_str lagging_env))))\<lparr>conn := False\<rparr>) = Some 130"
proof -
  from execute_stale obtain q where
    stale: "execute (IntercomConversationPipeline blank_str stale_env) = (None, q)"
      "watermark (postgres (env q)) = 90"
    by (elim exE conjE) (rule that; assumption)
  from execute_lagging obtain p where
    lagging: "execute (IntercomConversationPipeline blank_str lagging_env) = (None, p)"
      "watermark (postgres (env p)) = 120"
      "resolved_end ((env p)\<lparr>conn := False\<rparr>) = Some 130"
      "list_all (changed_after 100) (received (intercom lagging_env) (intercom (env p)))"
    by (elim exE conjE) (rule that; assumption)
  from stale lagging watermark_stale resolved_end_lagging show ?thesis by simp
qed

end
